theory Spec2Isabelle
  imports Complex_Main
begin

section \<open>The analyzer of \<^verbatim>\<open>tpep_theory.py\<close>\<close>

text \<open>
  Python integers are unbounded, so they are \<^typ>\<open>int\<close>. A raised exception is the
  \<open>Inl\<close> of a sum; a loop that might not come back is an \<open>option\<close> whose \<open>None\<close> means
  "does not return". \<open>//\<close> and \<open>%\<close> on integers floor, as \<open>div\<close> and \<open>mod\<close> on
  \<^typ>\<open>int\<close> do, and raise \<open>ZeroDivisionError\<close> on a zero divisor.
\<close>

datatype error = ValueError string | ZeroDivisionError

definition py_mod :: "int \<Rightarrow> int \<Rightarrow> error + int" where
  "py_mod a b = (if b = 0 then Inl ZeroDivisionError else Inr (a mod b))"

definition py_floordiv :: "int \<Rightarrow> int \<Rightarrow> error + int" where
  "py_floordiv a b = (if b = 0 then Inl ZeroDivisionError else Inr (a div b))"

subsection \<open>The factor dictionary\<close>

text \<open>
  A \<open>dict\<close> keeps its keys in insertion order and \<open>_calculate_phi\<close> and
  \<open>_calculate_sigma\<close> iterate over it, so it is an association list:
  \<open>factors.get(k, dflt)\<close> is \<open>dict_get\<close>, and \<open>factors[k] = v\<close> is \<open>dict_set\<close>, which
  overwrites the entry of a key that is present and appends a new key at the end.
\<close>

type_synonym factors = "(int \<times> int) list"

definition dict_get :: "factors \<Rightarrow> int \<Rightarrow> int \<Rightarrow> int" where
  "dict_get fs k dflt = (case map_of fs k of None \<Rightarrow> dflt | Some v \<Rightarrow> v)"

fun dict_set :: "int \<Rightarrow> int \<Rightarrow> factors \<Rightarrow> factors" where
  "dict_set k v [] = [(k, v)]"
| "dict_set k v ((k', v') # fs) =
     (if k' = k then (k, v) # fs else (k', v') # dict_set k v fs)"

subsection \<open>\<open>_get_prime_factors\<close>\<close>

text \<open>
  The inner loop \<^verbatim>\<open>while temp % d == 0: factors[d] = factors.get(d, 0) + 1; temp //= d\<close>
  on the state \<open>(factors, temp)\<close>, for the divisor \<open>d\<close> of the current outer round.
\<close>

partial_function (option) inner_loop ::
  "factors \<Rightarrow> int \<Rightarrow> int \<Rightarrow> (error + factors \<times> int) option" where
  "inner_loop fs d temp =
     (case py_mod temp d of
        Inl e \<Rightarrow> Some (Inl e)
      | Inr r \<Rightarrow>
          if r = 0 then
            (case py_floordiv temp d of
               Inl e \<Rightarrow> Some (Inl e)
             | Inr q \<Rightarrow> inner_loop (dict_set d (dict_get fs d 0 + 1) fs) d q)
          else Some (Inr (fs, temp)))"

text \<open>
  The outer loop \<^verbatim>\<open>while d * d <= temp: <inner loop>; d += 1\<close> on the state
  \<open>(factors, d, temp)\<close>.
\<close>

partial_function (option) outer_loop ::
  "factors \<Rightarrow> int \<Rightarrow> int \<Rightarrow> (error + factors \<times> int) option" where
  "outer_loop fs d temp =
     (if d * d \<le> temp then
        (case inner_loop fs d temp of
           None \<Rightarrow> None
         | Some (Inl e) \<Rightarrow> Some (Inl e)
         | Some (Inr (fs', temp')) \<Rightarrow> outer_loop fs' (d + 1) temp')
      else Some (Inr (fs, temp)))"

declare inner_loop.simps [code]
declare outer_loop.simps [code]

definition get_prime_factors :: "int \<Rightarrow> (error + factors) option" where
  "get_prime_factors n =
     (case outer_loop [] 2 n of
        None \<Rightarrow> None
      | Some (Inl e) \<Rightarrow> Some (Inl e)
      | Some (Inr (fs, temp)) \<Rightarrow>
          Some (Inr (if temp > 1 then dict_set temp (dict_get fs temp 0 + 1) fs else fs)))"

subsection \<open>\<open>_calculate_phi\<close> and \<open>_calculate_sigma\<close>\<close>

text \<open>
  \<^verbatim>\<open>for p in self._factors.keys(): result = result * (p - 1) // p\<close>, the loop over the
  keys in their order, from the running \<open>result\<close>.
\<close>

fun phi_loop :: "int \<Rightarrow> int list \<Rightarrow> error + int" where
  "phi_loop result [] = Inr result"
| "phi_loop result (p # ps) =
     (case py_floordiv (result * (p - 1)) p of
        Inl e \<Rightarrow> Inl e
      | Inr result' \<Rightarrow> phi_loop result' ps)"

definition calculate_phi :: "int \<Rightarrow> factors \<Rightarrow> error + int" where
  "calculate_phi n fs = phi_loop n (map fst fs)"

text \<open>
  \<^verbatim>\<open>for p, a in self._factors.items(): total *= (p**(a + 1) - 1) // (p - 1)\<close>,
  with \<open>tot\<close> for the running \<open>total\<close>.
  The exponent \<open>a + 1\<close> is read as a natural number: \<open>**\<close> leaves the integers only
  for a negative exponent, and \<open>_get_prime_factors\<close> stores counts, which start at
  \<open>0 + 1\<close> and grow.
\<close>

fun sigma_loop :: "int \<Rightarrow> factors \<Rightarrow> error + int" where
  "sigma_loop tot [] = Inr tot"
| "sigma_loop tot ((p, a) # items) =
     (case py_floordiv (p ^ nat (a + 1) - 1) (p - 1) of
        Inl e \<Rightarrow> Inl e
      | Inr q \<Rightarrow> sigma_loop (tot * q) items)"

definition calculate_sigma :: "factors \<Rightarrow> error + int" where
  "calculate_sigma fs = sigma_loop 1 fs"

subsection \<open>Construction\<close>

record analyzer =
  self_n :: int
  self_factors :: factors
  phi_val :: int
  sigma_val :: int

definition TPEPAnalyzer :: "int \<Rightarrow> (error + analyzer) option" where
  "TPEPAnalyzer n =
     (if n < 1 then Some (Inl (ValueError ''TPEP only applies to positive integers.''))
      else
        (case get_prime_factors n of
           None \<Rightarrow> None
         | Some (Inl e) \<Rightarrow> Some (Inl e)
         | Some (Inr fs) \<Rightarrow>
             (case calculate_phi n fs of
                Inl e \<Rightarrow> Some (Inl e)
              | Inr ph \<Rightarrow>
                  (case calculate_sigma fs of
                     Inl e \<Rightarrow> Some (Inl e)
                   | Inr sg \<Rightarrow>
                       Some (Inr \<lparr>self_n = n, self_factors = fs,
                                  phi_val = ph, sigma_val = sg\<rparr>)))))"

subsection \<open>Floats\<close>

text \<open>
  The four metrics are Python floats. A finite float is the rational number it denotes
  (equality and order of floats are those of the rationals), and an arithmetic
  operation returns the exact result rounded to the nearest number with a 53-bit
  significand, ties to the even significand: \<open>int / int\<close> is correctly rounded in
  CPython, as are IEEE 754 \<open>-\<close>, \<open>+\<close> and \<open>*\<close>. The exponent range of binary64 is not
  modelled, so no quotient overflows or becomes subnormal: with \<open>1 \<le> phi \<le> n \<le> sigma\<close>
  and \<open>sigma \<le> n * n\<close> every quotient of the metrics lies between \<open>1 / n\<close> and
  \<open>n * n\<close>, inside the range for every \<open>n\<close> below \<open>2 ^ 512\<close>.
\<close>

type_synonym pyfloat = rat

text \<open>\<open>int.bit_length\<close>: the number of binary digits of a positive integer.\<close>

function bit_length :: "int \<Rightarrow> int" where
  "bit_length k = (if k \<le> 0 then 0 else 1 + bit_length (k div 2))"
  by pat_completeness auto
termination
  by (relation "measure nat") auto

declare bit_length.simps [simp del]

definition pow2 :: "int \<Rightarrow> rat" where
  "pow2 e = (if 0 \<le> e then 2 ^ nat e else 1 / 2 ^ nat (- e))"

text \<open>The exponent \<open>e\<close> with \<open>2 ^ e \<le> \<bar>x\<bar> < 2 ^ (e + 1)\<close>, for \<open>x \<noteq> 0\<close>.\<close>

definition binade :: "rat \<Rightarrow> int" where
  "binade x =
     (let y = \<bar>x\<bar> in
      if 1 \<le> y then bit_length \<lfloor>y\<rfloor> - 1
      else - bit_length (\<lceil>1 / y\<rceil> - 1))"

definition round_half_even :: "rat \<Rightarrow> int" where
  "round_half_even x =
     (let f = \<lfloor>x\<rfloor>; r = x - of_int f in
      if r < 1 / 2 then f
      else if 1 / 2 < r then f + 1
      else if even f then f else f + 1)"

definition round_binary64 :: "rat \<Rightarrow> pyfloat" where
  "round_binary64 x =
     (if x = 0 then 0
      else let u = pow2 (binade x - 52) in of_int (round_half_even (x / u)) * u)"

definition int_truediv :: "int \<Rightarrow> int \<Rightarrow> error + pyfloat" where
  "int_truediv a b =
     (if b = 0 then Inl ZeroDivisionError
      else Inr (round_binary64 (of_int a / of_int b)))"

text \<open>
  \<open>math.isclose(a, b, rel_tol=rel_tol)\<close> with the default \<open>abs_tol = 0.0\<close>, as CPython
  computes it on finite floats: equal arguments are close, otherwise
  \<open>diff = fabs(b - a)\<close> is compared with \<open>fabs(rel_tol * b)\<close>, \<open>fabs(rel_tol * a)\<close>
  and \<open>abs_tol\<close>.
\<close>

definition isclose :: "pyfloat \<Rightarrow> pyfloat \<Rightarrow> pyfloat \<Rightarrow> bool" where
  "isclose a b rel_tol =
     (if a = b then True
      else
        (let diff = \<bar>round_binary64 (b - a)\<bar> in
         diff \<le> \<bar>round_binary64 (rel_tol * b)\<bar> \<or>
         diff \<le> \<bar>round_binary64 (rel_tol * a)\<bar> \<or>
         diff \<le> 0))"

subsection \<open>The metrics and the report\<close>

definition totient_density :: "analyzer \<Rightarrow> error + pyfloat" where
  "totient_density a = int_truediv (phi_val a) (self_n a)"

definition perfection_ratio :: "analyzer \<Rightarrow> error + pyfloat" where
  "perfection_ratio a = int_truediv (sigma_val a) (self_n a)"

definition tpep_ratio :: "analyzer \<Rightarrow> error + pyfloat" where
  "tpep_ratio a = int_truediv (sigma_val a) (phi_val a)"

definition mirror_gap :: "analyzer \<Rightarrow> error + pyfloat" where
  "mirror_gap a =
     (case perfection_ratio a of
        Inl e \<Rightarrow> Inl e
      | Inr rho \<Rightarrow>
          (case totient_density a of
             Inl e \<Rightarrow> Inl e
           | Inr tau \<Rightarrow> Inr (round_binary64 (rho + tau))))"

text \<open>
  \<open>report\<close> computes the parity label and the status label and then formats them,
  with the factors and the metrics, into one string. The model returns the two labels;
  the layout of the string and the five-decimal formatting are left out.
\<close>

definition is_tpep_stable :: "analyzer \<Rightarrow> error + bool" where
  "is_tpep_stable a =
     (case tpep_ratio a of
        Inl e \<Rightarrow> Inl e
      | Inr r \<Rightarrow> Inr (isclose r 4 (round_binary64 (1 / 10 ^ 9))))"

definition report :: "analyzer \<Rightarrow> error + string \<times> string" where
  "report a =
     (let parity = (if self_n a mod 2 \<noteq> 0 then ''ODD'' else ''EVEN'') in
      case is_tpep_stable a of
        Inl e \<Rightarrow> Inl e
      | Inr ok \<Rightarrow>
          Inr (parity, if ok then ''PERFECT (Stable)'' else ''IMPERFECT (Unstable)''))"

section \<open>What the specification speaks of\<close>

text \<open>
  A prime is an integer from 2 on that no number strictly between 1 and itself divides.
  Euler's totient counts the integers of \<open>[1, n]\<close> coprime to \<open>n\<close>; the divisor sum adds
  the positive divisors of \<open>n\<close>. The product of a factor mapping multiplies \<open>p ^ a\<close> over
  its entries \<open>(p, a)\<close>. A mapping is a prime factorization of \<open>n\<close> when its keys are
  distinct primes, its exponents are at least 1 and its product is \<open>n\<close>.
\<close>

definition is_prime :: "int \<Rightarrow> bool" where
  "is_prime p \<longleftrightarrow> 2 \<le> p \<and> (\<forall>d \<in> {2..<p}. \<not> d dvd p)"

definition euler_totient :: "int \<Rightarrow> int" where
  "euler_totient n = int (card {k \<in> {1..n}. coprime k n})"

definition divisor_sum :: "int \<Rightarrow> int" where
  "divisor_sum n = \<Sum> {d \<in> {1..n}. d dvd n}"

definition factors_product :: "factors \<Rightarrow> int" where
  "factors_product fs = prod_list (map (\<lambda>(p, a). p ^ nat a) fs)"

definition is_factorization :: "int \<Rightarrow> factors \<Rightarrow> bool" where
  "is_factorization n fs \<longleftrightarrow>
     factors_product fs = n \<and> distinct (map fst fs) \<and>
     (\<forall>(p, a) \<in> set fs. is_prime p \<and> 1 \<le> a)"

text \<open>
  The closed forms the two loops compute from a factorization: the product of
  \<open>p ^ (a - 1) * (p - 1)\<close> for the totient and the product of the geometric sums
  \<open>(p ^ (a + 1) - 1) div (p - 1)\<close> for the divisor sum.
\<close>

definition phi_product :: "factors \<Rightarrow> int" where
  "phi_product fs = prod_list (map (\<lambda>(p, a). p ^ (nat a - 1) * (p - 1)) fs)"

definition sigma_product :: "factors \<Rightarrow> int" where
  "sigma_product fs = prod_list (map (\<lambda>(p, a). (p ^ nat (a + 1) - 1) div (p - 1)) fs)"

section \<open>The factorization loop\<close>

subsection \<open>Dictionary updates\<close>

lemma dict_get_absent: "k \<notin> fst ` set fs \<Longrightarrow> dict_get fs k dflt = dflt"
  by (simp add: dict_get_def map_of_eq_None_iff[THEN iffD2])

lemma dict_set_absent: "k \<notin> fst ` set fs \<Longrightarrow> dict_set k v fs = fs @ [(k, v)]"
  by (induction fs) auto

lemma dict_get_last: "k \<notin> fst ` set fs \<Longrightarrow> dict_get (fs @ [(k, v)]) k dflt = v"
  by (induction fs) (auto simp: dict_get_def)

lemma dict_set_last: "k \<notin> fst ` set fs \<Longrightarrow> dict_set k w (fs @ [(k, v)]) = fs @ [(k, w)]"
  by (induction fs) auto

subsection \<open>The inner loop divides \<open>d\<close> out\<close>

lemma exact_div_bounds:
  fixes d temp :: int
  assumes "2 \<le> d" and "1 \<le> temp" and "d dvd temp"
  shows "1 \<le> temp div d" and "temp div d < temp"
proof -
  from assms(3) obtain q where q: "temp = d * q" ..
  with assms(1,2) have "0 < q"
    using zero_less_mult_pos[of d q] by simp
  moreover from q assms(1) have "temp div d = q"
    by simp
  ultimately show "1 \<le> temp div d" by simp
  from \<open>0 < q\<close> assms(1) have "1 * q < d * q"
    by (intro mult_strict_right_mono) simp_all
  with q \<open>temp div d = q\<close> show "temp div d < temp" by simp
qed

lemma inner_loop_stop:
  "d \<noteq> 0 \<Longrightarrow> \<not> d dvd temp \<Longrightarrow> inner_loop fs d temp = Some (Inr (fs, temp))"
  by (subst inner_loop.simps) (simp add: py_mod_def dvd_eq_mod_eq_0)

lemma inner_loop_step:
  "d \<noteq> 0 \<Longrightarrow> d dvd temp \<Longrightarrow>
   inner_loop fs d temp = inner_loop (dict_set d (dict_get fs d 0 + 1) fs) d (temp div d)"
  by (subst inner_loop.simps) (simp add: py_mod_def py_floordiv_def)

lemma inner_loop_counted:
  assumes "2 \<le> d" and "1 \<le> temp" and "d \<notin> fst ` set fs" and "1 \<le> j"
  shows "\<exists>k temp'. inner_loop (fs @ [(d, j)]) d temp = Some (Inr (fs @ [(d, j + int k)], temp'))
           \<and> temp = d ^ k * temp' \<and> \<not> d dvd temp' \<and> 1 \<le> temp'"
  using assms
proof (induction "nat temp" arbitrary: temp j rule: less_induct)
  case less
  show ?case
  proof (cases "d dvd temp")
    case False
    with less.prems have "inner_loop (fs @ [(d, j)]) d temp = Some (Inr (fs @ [(d, j + int 0)], temp))"
      by (simp add: inner_loop_stop)
    with False less.prems show ?thesis
      by (intro exI[of _ 0] exI[of _ temp]) simp
  next
    case True
    let ?t = "temp div d"
    from True have t: "temp = d * ?t" by simp
    from less.prems True have t1: "1 \<le> ?t" and t2: "?t < temp"
      by (simp_all add: exact_div_bounds)
    have lt: "nat ?t < nat temp"
      using t1 t2 by simp
    have step: "inner_loop (fs @ [(d, j)]) d temp = inner_loop (fs @ [(d, j + 1)]) d ?t"
      using less.prems True
      by (simp add: inner_loop_step dict_get_last dict_set_last)
    from less.hyps[OF lt _ t1 _, of "j + 1"] less.prems
    obtain k temp' where r: "inner_loop (fs @ [(d, j + 1)]) d ?t = Some (Inr (fs @ [(d, j + 1 + int k)], temp'))"
      and e: "?t = d ^ k * temp'" and nd: "\<not> d dvd temp'" and p: "1 \<le> temp'"
      by auto
    have "temp = d ^ Suc k * temp'"
      using t e by (metis mult.assoc power_Suc)
    with step r nd p show ?thesis
      by (intro exI[of _ "Suc k"] exI[of _ temp']) (simp add: add.assoc add.commute)
  qed
qed

lemma inner_loop_result:
  assumes "2 \<le> d" and "1 \<le> temp" and "d \<notin> fst ` set fs"
  shows "\<exists>k temp'. inner_loop fs d temp =
             Some (Inr (if k = 0 then fs else fs @ [(d, int k)], temp'))
           \<and> temp = d ^ k * temp' \<and> \<not> d dvd temp' \<and> 1 \<le> temp'"
proof (cases "d dvd temp")
  case False
  with assms have "inner_loop fs d temp = Some (Inr (fs, temp))"
    by (simp add: inner_loop_stop)
  with False assms show ?thesis
    by (intro exI[of _ 0] exI[of _ temp]) simp
next
  case True
  let ?t = "temp div d"
  from True have t: "temp = d * ?t" by simp
  from assms True have t1: "1 \<le> ?t"
    by (simp add: exact_div_bounds)
  have step: "inner_loop fs d temp = inner_loop (fs @ [(d, 1)]) d ?t"
    using assms True by (simp add: inner_loop_step dict_get_absent dict_set_absent)
  from inner_loop_counted[OF assms(1) t1 assms(3), of 1]
  obtain k temp' where r: "inner_loop (fs @ [(d, 1)]) d ?t = Some (Inr (fs @ [(d, 1 + int k)], temp'))"
    and e: "?t = d ^ k * temp'" and nd: "\<not> d dvd temp'" and p: "1 \<le> temp'"
    by auto
  have "temp = d ^ Suc k * temp'"
    using t e by (metis mult.assoc power_Suc)
  with step r nd p show ?thesis
    by (intro exI[of _ "Suc k"] exI[of _ temp']) (simp add: add.commute)
qed

subsection \<open>Primes\<close>

lemma is_primeI:
  assumes "2 \<le> p" and "\<And>m. 2 \<le> m \<Longrightarrow> m < p \<Longrightarrow> \<not> m dvd p"
  shows "is_prime p"
  using assms by (auto simp: is_prime_def)

lemma is_prime_ge_2: "is_prime p \<Longrightarrow> 2 \<le> p"
  by (simp add: is_prime_def)

lemma is_prime_divisor:
  assumes "is_prime p" and "0 < m" and "m dvd p"
  shows "m = 1 \<or> m = p"
proof (rule ccontr)
  assume "\<not> (m = 1 \<or> m = p)"
  moreover from assms have "m \<le> p"
    by (simp add: is_prime_def zdvd_imp_le)
  ultimately have "m \<in> {2..<p}"
    using assms(2) by simp
  with assms(1,3) show False
    by (simp add: is_prime_def)
qed

subsection \<open>The outer loop keeps the invariant\<close>

lemma factors_product_append:
  "factors_product (fs @ gs) = factors_product fs * factors_product gs"
  by (simp add: factors_product_def)

lemma factors_product_single: "factors_product [(p, a)] = p ^ nat a"
  by (simp add: factors_product_def)

lemma outer_loop_stop:
  "\<not> d * d \<le> temp \<Longrightarrow> outer_loop fs d temp = Some (Inr (fs, temp))"
  by (subst outer_loop.simps) simp

lemma outer_loop_step:
  "d * d \<le> temp \<Longrightarrow> inner_loop fs d temp = Some (Inr (fs', temp')) \<Longrightarrow>
   outer_loop fs d temp = outer_loop fs' (d + 1) temp'"
  by (subst outer_loop.simps) simp

lemma outer_loop_result:
  assumes "2 \<le> d" and "1 \<le> temp"
    and "\<forall>(p, a) \<in> set fs. is_prime p \<and> p < d \<and> 1 \<le> a"
    and "distinct (map fst fs)"
    and "\<forall>m. 2 \<le> m \<and> m < d \<longrightarrow> \<not> m dvd temp"
  shows "\<exists>fs' d' temp'. outer_loop fs d temp = Some (Inr (fs', temp'))
           \<and> factors_product fs' * temp' = factors_product fs * temp
           \<and> (\<forall>(p, a) \<in> set fs'. is_prime p \<and> p < d' \<and> 1 \<le> a)
           \<and> distinct (map fst fs')
           \<and> (\<forall>m. 2 \<le> m \<and> m < d' \<longrightarrow> \<not> m dvd temp')
           \<and> 1 \<le> temp' \<and> 2 \<le> d' \<and> temp' < d' * d'"
  using assms
proof (induction "nat (temp + 1 - d)" arbitrary: fs d temp rule: less_induct)
  case less
  show ?case
  proof (cases "d * d \<le> temp")
    case False
    with less.prems show ?thesis
      by (intro exI[of _ fs] exI[of _ d] exI[of _ temp]) (simp add: outer_loop_stop)
  next
    case True
    from less.prems(3) have fresh: "d \<notin> fst ` set fs"
      by fastforce
    from inner_loop_result[OF less.prems(1,2) fresh]
    obtain k temp1 where
      inner: "inner_loop fs d temp = Some (Inr (if k = 0 then fs else fs @ [(d, int k)], temp1))"
      and temp: "temp = d ^ k * temp1" and nd: "\<not> d dvd temp1" and pos: "1 \<le> temp1"
      by blast
    define fs1 where "fs1 = (if k = 0 then fs else fs @ [(d, int k)])"
    have step: "outer_loop fs d temp = outer_loop fs1 (d + 1) temp1"
      using True inner by (simp add: outer_loop_step fs1_def)
    have dvd1: "temp1 dvd temp"
      using temp by simp
    have prime_d: "is_prime d" if "k \<noteq> 0"
    proof (rule is_primeI)
      show "2 \<le> d" by (rule less.prems)
      fix m :: int
      assume m: "2 \<le> m" "m < d"
      from that have "d dvd temp"
        using temp by (cases k) simp_all
      with less.prems(5) m show "\<not> m dvd d"
        using dvd_trans by blast
    qed
    have prod: "factors_product fs1 * temp1 = factors_product fs * temp"
      by (simp add: fs1_def factors_product_append factors_product_single temp)
    have keys: "\<forall>(p, a) \<in> set fs1. is_prime p \<and> p < d + 1 \<and> 1 \<le> a"
    proof (cases "k = 0")
      case True
      with less.prems(3) show ?thesis
        by (fastforce simp: fs1_def)
    next
      case False
      with prime_d have "is_prime d" by simp
      with False less.prems(3) show ?thesis
        by (fastforce simp: fs1_def)
    qed
    have dist: "distinct (map fst fs1)"
      using less.prems(4) fresh by (simp add: fs1_def)
    have nodiv: "\<forall>m. 2 \<le> m \<and> m < d + 1 \<longrightarrow> \<not> m dvd temp1"
    proof (intro allI impI)
      fix m :: int
      assume m: "2 \<le> m \<and> m < d + 1"
      show "\<not> m dvd temp1"
      proof (cases "m = d")
        case True
        with nd show ?thesis by simp
      next
        case False
        with m less.prems(5) have "\<not> m dvd temp" by simp
        with dvd1 show ?thesis using dvd_trans by blast
      qed
    qed
    have le: "temp1 \<le> temp"
      using dvd1 less.prems(2) by (simp add: zdvd_imp_le)
    have "d \<le> d * d"
      using less.prems(1) by (simp add: mult_le_cancel_left1)
    with True have "d \<le> temp" by simp
    with le have meas: "nat (temp1 + 1 - (d + 1)) < nat (temp + 1 - d)"
      by simp
    from less.hyps[OF meas _ pos keys dist nodiv] less.prems(1) step prod
    show ?thesis
      by auto
  qed
qed

subsection \<open>What is left after the loop is 1 or a prime\<close>

lemma leftover_is_prime:
  assumes "1 < temp" and "temp < d * d" and "2 \<le> d"
    and nodiv: "\<forall>m. 2 \<le> m \<and> m < d \<longrightarrow> \<not> m dvd temp"
  shows "is_prime temp" and "d \<le> temp"
proof -
  show "d \<le> temp"
  proof (rule ccontr)
    assume "\<not> d \<le> temp"
    with assms(1) have "2 \<le> temp \<and> temp < d" by simp
    with nodiv have "\<not> temp dvd temp" by blast
    then show False by simp
  qed
  show "is_prime temp"
  proof (rule is_primeI)
    from assms(1) show "2 \<le> temp" by simp
    fix m :: int
    assume m: "2 \<le> m" "m < temp"
    show "\<not> m dvd temp"
    proof
      assume "m dvd temp"
      then obtain q where q: "temp = m * q" ..
      with assms(1) m have "0 < q"
        using zero_less_mult_pos[of m q] by simp
      from q m have "q \<noteq> 1" by auto
      with \<open>0 < q\<close> have "2 \<le> q" by simp
      from q have "q dvd temp" by simp
      with nodiv \<open>2 \<le> q\<close> have "d \<le> q" by force
      from nodiv \<open>m dvd temp\<close> m have "d \<le> m" by force
      from \<open>d \<le> m\<close> \<open>d \<le> q\<close> assms(3) have "d * d \<le> m * q"
        by (intro mult_mono) simp_all
      with q assms(2) show False by simp
    qed
  qed
qed

lemma get_prime_factors_result:
  assumes "1 \<le> n"
  shows "\<exists>fs. get_prime_factors n = Some (Inr fs) \<and> is_factorization n fs"
proof -
  have "\<exists>fs' d' temp'. outer_loop [] 2 n = Some (Inr (fs', temp'))
           \<and> factors_product fs' * temp' = factors_product [] * n
           \<and> (\<forall>(p, a) \<in> set fs'. is_prime p \<and> p < d' \<and> 1 \<le> a)
           \<and> distinct (map fst fs')
           \<and> (\<forall>m. 2 \<le> m \<and> m < d' \<longrightarrow> \<not> m dvd temp')
           \<and> 1 \<le> temp' \<and> 2 \<le> d' \<and> temp' < d' * d'"
    using assms by (intro outer_loop_result) auto
  then obtain fs' d' temp' where
    loop: "outer_loop [] 2 n = Some (Inr (fs', temp'))"
    and prod: "factors_product fs' * temp' = n"
    and keys: "\<forall>(p, a) \<in> set fs'. is_prime p \<and> p < d' \<and> 1 \<le> a"
    and dist: "distinct (map fst fs')"
    and nodiv: "\<forall>m. 2 \<le> m \<and> m < d' \<longrightarrow> \<not> m dvd temp'"
    and bounds: "1 \<le> temp'" "2 \<le> d'" "temp' < d' * d'"
    by (auto simp: factors_product_def)
  show ?thesis
  proof (cases "1 < temp'")
    case False
    with bounds have "temp' = 1" by simp
    with loop have "get_prime_factors n = Some (Inr fs')"
      by (simp add: get_prime_factors_def)
    moreover have "is_factorization n fs'"
      using prod keys dist \<open>temp' = 1\<close> by (fastforce simp: is_factorization_def)
    ultimately show ?thesis by blast
  next
    case True
    from leftover_is_prime[OF True bounds(3,2) nodiv]
    have pr: "is_prime temp'" and ge: "d' \<le> temp'" .
    from keys ge have fresh: "temp' \<notin> fst ` set fs'"
      by fastforce
    with loop True have "get_prime_factors n = Some (Inr (fs' @ [(temp', 1)]))"
      by (simp add: get_prime_factors_def dict_get_absent dict_set_absent)
    moreover have "is_factorization n (fs' @ [(temp', 1)])"
      using prod keys dist fresh pr
      by (fastforce simp: is_factorization_def factors_product_append factors_product_single)
    ultimately show ?thesis by blast
  qed
qed

lemma get_prime_factors_1: "get_prime_factors 1 = Some (Inr [])"
  by (simp add: get_prime_factors_def outer_loop_stop)

section \<open>Euler's totient\<close>

subsection \<open>Primes and coprimality\<close>

lemma is_prime_coprime:
  assumes "is_prime p" and "\<not> p dvd a"
  shows "coprime p a"
proof (rule coprimeI)
  fix c :: int
  assume c: "c dvd p" "c dvd a"
  from assms(1) have "p \<noteq> 0"
    by (auto dest: is_prime_ge_2)
  with c(1) have "c \<noteq> 0" by auto
  then have "0 < \<bar>c\<bar>" by simp
  moreover from c(1) have "\<bar>c\<bar> dvd p" by simp
  ultimately have "\<bar>c\<bar> = 1 \<or> \<bar>c\<bar> = p"
    using assms(1) by (rule is_prime_divisor[rotated])
  moreover have "\<bar>c\<bar> \<noteq> p"
  proof
    assume "\<bar>c\<bar> = p"
    with c(2) have "p dvd a" by (metis abs_dvd_iff)
    with assms(2) show False ..
  qed
  ultimately show "is_unit c" by simp
qed

lemma is_prime_coprime_iff:
  assumes "is_prime p"
  shows "coprime p a \<longleftrightarrow> \<not> p dvd a"
proof
  assume "coprime p a"
  show "\<not> p dvd a"
  proof
    assume "p dvd a"
    with \<open>coprime p a\<close> have "is_unit p"
      by (metis coprime_common_divisor dvd_refl)
    with assms show False
      by (auto dest: is_prime_ge_2)
  qed
qed (rule is_prime_coprime[OF assms])

lemma primes_coprime:
  assumes "is_prime p" and "is_prime q" and "p \<noteq> q"
  shows "coprime p q"
proof (rule is_prime_coprime[OF assms(1)])
  show "\<not> p dvd q"
  proof
    assume "p dvd q"
    moreover from assms(1) have "0 < p" by (auto dest: is_prime_ge_2)
    ultimately have "p = 1 \<or> p = q"
      using assms(2) by (intro is_prime_divisor)
    with assms(1,3) show False
      by (auto dest: is_prime_ge_2)
  qed
qed

lemma factors_product_pos:
  assumes "\<forall>(p, a) \<in> set fs. is_prime p \<and> 1 \<le> a"
  shows "1 \<le> factors_product fs"
  using assms
proof (induction fs)
  case Nil
  then show ?case by (simp add: factors_product_def)
next
  case (Cons x fs)
  obtain p a where x: "x = (p, a)" by (cases x)
  with Cons.prems have "2 \<le> p" by (auto dest: is_prime_ge_2)
  then have "1 \<le> p ^ nat a" by simp
  moreover from Cons have "1 \<le> factors_product fs" by simp
  ultimately have "1 * 1 \<le> p ^ nat a * factors_product fs"
    by (intro mult_mono) simp_all
  with x show ?case by (simp add: factors_product_def)
qed

lemma coprime_factors_product:
  assumes "is_prime p" and "p \<notin> fst ` set fs"
    and "\<forall>(q, b) \<in> set fs. is_prime q \<and> 1 \<le> b"
  shows "coprime p (factors_product fs)"
  unfolding factors_product_def
proof (rule prod_list_coprime_right)
  fix x
  assume "x \<in> set (map (\<lambda>(q, b). q ^ nat b) fs)"
  then obtain q b where qb: "(q, b) \<in> set fs" and x: "x = q ^ nat b"
    by auto
  from qb assms(2) have "p \<noteq> q" by force
  moreover from qb assms(3) have "is_prime q" by auto
  ultimately have "coprime p q"
    using assms(1) by (intro primes_coprime)
  with x show "coprime p x" by simp
qed

lemma is_factorization_Nil: "is_factorization n [] \<longleftrightarrow> n = 1"
  by (auto simp: is_factorization_def factors_product_def)

lemma is_factorization_Cons:
  assumes "is_factorization n ((p, a) # fs)"
  shows "n = p ^ nat a * factors_product fs"
    and "is_factorization (factors_product fs) fs"
    and "is_prime p" and "1 \<le> a"
    and "coprime (p ^ nat a) (factors_product fs)"
    and "1 \<le> factors_product fs"
proof -
  from assms show n: "n = p ^ nat a * factors_product fs"
    by (simp add: is_factorization_def factors_product_def)
  from assms show rest: "is_factorization (factors_product fs) fs"
    by (simp add: is_factorization_def)
  from assms show p: "is_prime p" and "1 \<le> a"
    by (simp_all add: is_factorization_def)
  from assms have "p \<notin> fst ` set fs" and all: "\<forall>(q, b) \<in> set fs. is_prime q \<and> 1 \<le> b"
    by (simp_all add: is_factorization_def)
  with p have "coprime p (factors_product fs)"
    by (intro coprime_factors_product)
  then show "coprime (p ^ nat a) (factors_product fs)" by simp
  from all show "1 \<le> factors_product fs"
    by (rule factors_product_pos)
qed

subsection \<open>Counting residues\<close>

lemma euler_totient_residues:
  assumes "1 \<le> n"
  shows "euler_totient n = int (card {k \<in> {0..<n}. coprime k n})"
proof (cases "n = 1")
  case True
  have "{k \<in> {1..1::int}. coprime k 1} = {1}" by auto
  moreover have "{k \<in> {0..<1::int}. coprime k 1} = {0}" by auto
  ultimately show ?thesis
    using True by (simp add: euler_totient_def)
next
  case False
  with assms have n: "1 < n" by simp
  then have "\<not> coprime 0 n" and "\<not> coprime n n" by simp_all
  then have "{k \<in> {1..n}. coprime k n} = {k \<in> {0..<n}. coprime k n}"
    by (auto simp: order_le_less)
  then show ?thesis
    by (simp add: euler_totient_def)
qed

lemma residues_inj:
  fixes a b :: int
  assumes "coprime a b" and "1 \<le> a" and "1 \<le> b"
  shows "inj_on (\<lambda>k. (k mod a, k mod b)) {0..<a * b}"
proof (rule inj_onI)
  fix x y :: int
  assume x: "x \<in> {0..<a * b}" and y: "y \<in> {0..<a * b}"
    and eq: "(x mod a, x mod b) = (y mod a, y mod b)"
  from eq have "a dvd x - y" and "b dvd x - y"
    by (simp_all add: mod_eq_dvd_iff)
  with assms(1) have "a * b dvd x - y"
    by (intro divides_mult)
  moreover from x y have "\<bar>x - y\<bar> < a * b" by auto
  ultimately have "x - y = 0"
    using zdvd_not_zless[of "\<bar>x - y\<bar>" "a * b"] by auto
  then show "x = y" by simp
qed

lemma residues_onto:
  fixes a b :: int
  assumes "coprime a b" and "1 \<le> a" and "1 \<le> b"
  shows "(\<lambda>k. (k mod a, k mod b)) ` {0..<a * b} = {0..<a} \<times> {0..<b}"
proof (rule card_subset_eq)
  show "finite ({0..<a} \<times> {0..<b})" by simp
  from assms(2,3) show "(\<lambda>k. (k mod a, k mod b)) ` {0..<a * b} \<subseteq> {0..<a} \<times> {0..<b}"
    by auto
  have "card ((\<lambda>k. (k mod a, k mod b)) ` {0..<a * b}) = card {0..<a * b}"
    by (intro card_image residues_inj assms)
  also have "\<dots> = card ({0..<a} \<times> {0..<b})"
    using assms(2,3) by (simp add: nat_mult_distrib)
  finally show "card ((\<lambda>k. (k mod a, k mod b)) ` {0..<a * b}) = card ({0..<a} \<times> {0..<b})" .
qed

lemma totatives_product:
  fixes a b :: int
  assumes "coprime a b" and "1 \<le> a" and "1 \<le> b"
  shows "(\<lambda>k. (k mod a, k mod b)) ` {k \<in> {0..<a * b}. coprime k (a * b)} =
         {k \<in> {0..<a}. coprime k a} \<times> {k \<in> {0..<b}. coprime k b}"
    (is "?f ` ?T = ?A \<times> ?B")
proof (intro equalityI subsetI)
  fix z
  assume "z \<in> ?f ` ?T"
  then obtain k where k: "k \<in> ?T" and z: "z = ?f k" by blast
  with assms(2,3) show "z \<in> ?A \<times> ?B"
    by (auto simp: coprime_commute)
next
  fix z
  assume z: "z \<in> ?A \<times> ?B"
  then have "z \<in> {0..<a} \<times> {0..<b}" by auto
  with residues_onto[OF assms] obtain k where k: "k \<in> {0..<a * b}" and zk: "z = ?f k"
    by blast
  from z zk assms(2,3) have "coprime k a" and "coprime k b"
    by (auto simp: coprime_commute)
  then have "coprime k (a * b)" by simp
  with k zk show "z \<in> ?f ` ?T" by blast
qed

lemma euler_totient_mult:
  assumes "coprime a b" and "1 \<le> a" and "1 \<le> b"
  shows "euler_totient (a * b) = euler_totient a * euler_totient b"
proof -
  let ?f = "\<lambda>k. (k mod a, k mod b)"
  let ?T = "{k \<in> {0..<a * b}. coprime k (a * b)}"
  have "inj_on ?f ?T"
    by (rule inj_on_subset[OF residues_inj[OF assms]]) auto
  then have "card ?T = card (?f ` ?T)"
    by (simp add: card_image)
  also have "\<dots> = card {k \<in> {0..<a}. coprime k a} * card {k \<in> {0..<b}. coprime k b}"
    by (simp only: totatives_product[OF assms] card_cartesian_product)
  finally have "int (card ?T) =
      int (card {k \<in> {0..<a}. coprime k a}) * int (card {k \<in> {0..<b}. coprime k b})"
    by simp
  moreover from assms(2,3) have "1 \<le> a * b"
    by (metis mult_mono mult_1 zero_le_one order_trans)
  ultimately show ?thesis
    using assms(2,3) by (simp add: euler_totient_residues)
qed

subsection \<open>Prime powers\<close>

lemma multiples_below:
  fixes p :: int
  assumes "2 \<le> p"
  shows "{j \<in> {0..<p * m}. p dvd j} = (\<lambda>i. p * i) ` {0..<m}"
proof (intro equalityI subsetI)
  fix j
  assume "j \<in> {j \<in> {0..<p * m}. p dvd j}"
  then obtain i where j: "j = p * i" and b: "0 \<le> p * i" "p * i < p * m"
    by (auto elim: dvdE)
  from b assms have "0 \<le> i" and "i < m"
    by (simp_all add: zero_le_mult_iff)
  then have "i \<in> {0..<m}" by simp
  with j show "j \<in> (\<lambda>i. p * i) ` {0..<m}" by (rule image_eqI)
next
  fix j
  assume "j \<in> (\<lambda>i. p * i) ` {0..<m}"
  with assms show "j \<in> {j \<in> {0..<p * m}. p dvd j}" by auto
qed

lemma euler_totient_prime_power:
  assumes "is_prime p" and "0 < k"
  shows "euler_totient (p ^ k) = p ^ (k - 1) * (p - 1)"
proof -
  from assms(1) have p: "2 \<le> p" by (rule is_prime_ge_2)
  from assms(2) obtain m where k: "k = Suc m" by (cases k) simp_all
  let ?M = "{j \<in> {0..<p * p ^ m}. p dvd j}"
  have cop: "coprime j (p ^ k) \<longleftrightarrow> \<not> p dvd j" for j
    using assms is_prime_coprime_iff[OF assms(1), of j]
    by (simp add: coprime_commute[of j])
  have "{j \<in> {0..<p ^ k}. coprime j (p ^ k)} = {j \<in> {0..<p ^ k}. \<not> p dvd j}"
    by (simp only: cop)
  also have "\<dots> = {0..<p * p ^ m} - ?M"
    by (auto simp: k)
  finally have "{j \<in> {0..<p ^ k}. coprime j (p ^ k)} = {0..<p * p ^ m} - ?M" .
  moreover have "finite ?M"
    by (rule finite_subset[of _ "{0..<p * p ^ m}"]) auto
  then have "card ({0..<p * p ^ m} - ?M) = card {0..<p * p ^ m} - card ?M"
    by (rule card_Diff_subset) auto
  moreover have "card ?M = card {0..<p ^ m}"
    unfolding multiples_below[OF p] using p by (intro card_image inj_onI) simp
  moreover have "p ^ m \<le> p * p ^ m"
    using p by (simp add: mult_le_cancel_right1)
  moreover have "0 \<le> p ^ m" using p by simp
  moreover have "1 \<le> p ^ k" using p by simp
  ultimately have "euler_totient (p ^ k) = p * p ^ m - p ^ m"
    by (simp add: euler_totient_residues nat_diff_distrib' k)
  then show ?thesis
    by (simp add: k algebra_simps)
qed

lemma euler_totient_1: "euler_totient 1 = 1"
proof -
  have "{k \<in> {1..1::int}. coprime k 1} = {1}" by auto
  then show ?thesis by (simp add: euler_totient_def)
qed

lemma euler_totient_factorization:
  assumes "is_factorization n fs"
  shows "euler_totient n = phi_product fs"
  using assms
proof (induction fs arbitrary: n)
  case Nil
  then show ?case
    by (simp add: is_factorization_Nil euler_totient_1 phi_product_def)
next
  case (Cons x fs)
  obtain p a where x: "x = (p, a)" by (cases x)
  note f = is_factorization_Cons[OF Cons.prems[unfolded x]]
  from f(3) have "1 \<le> p ^ nat a" by (auto dest: is_prime_ge_2)
  with f have "euler_totient n = euler_totient (p ^ nat a) * euler_totient (factors_product fs)"
    by (simp add: euler_totient_mult)
  also from f have "euler_totient (p ^ nat a) = p ^ (nat a - 1) * (p - 1)"
    by (intro euler_totient_prime_power) simp_all
  also from f have "euler_totient (factors_product fs) = phi_product fs"
    by (intro Cons.IH)
  finally show ?case
    by (simp add: x phi_product_def)
qed

lemma euler_totient_bounds:
  assumes "1 \<le> n"
  shows "1 \<le> euler_totient n" and "euler_totient n \<le> n"
proof -
  let ?T = "{k \<in> {1..n}. coprime k n}"
  have "card ?T \<le> card {1..n}"
    by (intro card_mono) auto
  with assms show "euler_totient n \<le> n"
    by (simp add: euler_totient_def)
  from assms have "1 \<in> ?T" by simp
  moreover have "finite ?T"
    by (rule finite_subset[of _ "{1..n}"]) auto
  ultimately have "0 < card ?T"
    by (auto simp: card_gt_0_iff)
  then show "1 \<le> euler_totient n"
    by (simp add: euler_totient_def)
qed

subsection \<open>The totient loop\<close>

lemma phi_product_Cons:
  "phi_product ((p, a) # fs) = p ^ (nat a - 1) * (p - 1) * phi_product fs"
  by (simp add: phi_product_def)

lemma factors_product_Cons:
  "factors_product ((p, a) # fs) = p ^ nat a * factors_product fs"
  by (simp add: factors_product_def)

lemma power_nat_pred:
  fixes p a :: int
  assumes "1 \<le> a"
  shows "p ^ nat a = p * p ^ (nat a - 1)"
proof -
  from assms have "nat a = Suc (nat a - 1)" by simp
  then show ?thesis by (metis power_Suc)
qed

lemma phi_loop_prefix:
  assumes "\<forall>(p, a) \<in> set fs. 2 \<le> p \<and> 1 \<le> a"
  shows "phi_loop (c * factors_product fs * r) (map fst fs) = Inr (c * phi_product fs * r)"
  using assms
proof (induction fs arbitrary: c)
  case Nil
  then show ?case
    by (simp add: factors_product_def phi_product_def)
next
  case (Cons x fs)
  obtain p a where x: "x = (p, a)" by (cases x)
  with Cons.prems have p: "2 \<le> p" and a: "1 \<le> a" by simp_all
  let ?c = "c * (p ^ (nat a - 1) * (p - 1))"
  have eq: "c * factors_product (x # fs) * r * (p - 1) = p * (?c * factors_product fs * r)"
    by (simp add: x factors_product_Cons power_nat_pred[OF a] algebra_simps)
  from p have "p \<noteq> 0" by simp
  then have "py_floordiv (c * factors_product (x # fs) * r * (p - 1)) p =
      Inr (?c * factors_product fs * r)"
    unfolding py_floordiv_def eq by simp
  moreover from Cons.prems have "phi_loop (?c * factors_product fs * r) (map fst fs) =
      Inr (?c * phi_product fs * r)"
    by (intro Cons.IH) simp
  ultimately show ?case
    by (simp add: x phi_product_Cons algebra_simps)
qed

lemma phi_loop_factorization:
  assumes "is_factorization n fs"
  shows "phi_loop n (map fst fs) = Inr (euler_totient n)"
proof -
  from assms have "\<forall>(p, a) \<in> set fs. 2 \<le> p \<and> 1 \<le> a"
    by (auto simp: is_factorization_def dest: is_prime_ge_2)
  from phi_loop_prefix[OF this, of 1 1] assms show ?thesis
    by (simp add: euler_totient_factorization) (simp add: is_factorization_def)
qed

lemma phi_loop_divisible:
  assumes "is_factorization n fs" and "map fst fs = ps @ p # qs"
  shows "\<exists>r. phi_loop n ps = Inr r \<and> p dvd r"
proof -
  from assms(2) obtain fs1 fs2 a where fs: "fs = fs1 @ (p, a) # fs2" and ps: "ps = map fst fs1"
    by (auto simp: map_eq_append_conv map_eq_Cons_conv)
  from assms(1) have all: "\<forall>(p, a) \<in> set fs. 2 \<le> p \<and> 1 \<le> a"
    by (auto simp: is_factorization_def dest: is_prime_ge_2)
  with fs have a: "1 \<le> a" and all1: "\<forall>(p, a) \<in> set fs1. 2 \<le> p \<and> 1 \<le> a"
    by simp_all
  from assms(1) fs have n: "n = 1 * factors_product fs1 * factors_product ((p, a) # fs2)"
    by (simp add: is_factorization_def factors_product_append)
  have "phi_loop n ps = Inr (1 * phi_product fs1 * factors_product ((p, a) # fs2))"
    unfolding ps by (subst n) (rule phi_loop_prefix[OF all1])
  moreover have "p dvd 1 * phi_product fs1 * factors_product ((p, a) # fs2)"
    by (simp add: factors_product_Cons power_nat_pred[OF a])
  ultimately show ?thesis by blast
qed

lemma phi_product_rational:
  assumes "\<forall>(p, a) \<in> set fs. 2 \<le> p \<and> 1 \<le> a"
  shows "(of_int (phi_product fs) :: rat) =
         of_int (factors_product fs) * (\<Prod>p\<leftarrow>map fst fs. (of_int p - 1) / of_int p)"
  using assms
proof (induction fs)
  case Nil
  then show ?case by (simp add: phi_product_def factors_product_def)
next
  case (Cons x fs)
  obtain p a where x: "x = (p, a)" by (cases x)
  with Cons.prems have p: "2 \<le> p" and a: "1 \<le> a" by simp_all
  from p have "(of_int p :: rat) \<noteq> 0" by simp
  with Cons show ?case
    by (simp add: x phi_product_Cons factors_product_Cons power_nat_pred[OF a])
qed

section \<open>The sum of divisors\<close>

subsection \<open>Divisors of a product of coprime numbers\<close>

lemma divisor_sum_positive:
  assumes "1 \<le> n"
  shows "divisor_sum n = \<Sum> {d. 0 < d \<and> d dvd n}"
proof -
  from assms have "{d \<in> {1..n}. d dvd n} = {d. 0 < d \<and> d dvd n}"
    by (auto simp: zdvd_imp_le)
  then show ?thesis by (simp add: divisor_sum_def)
qed

lemma finite_divisors:
  fixes n :: int
  assumes "1 \<le> n"
  shows "finite {d. 0 < d \<and> d dvd n}"
proof (rule finite_subset)
  from assms show "{d. 0 < d \<and> d dvd n} \<subseteq> {1..n}"
    by (auto simp: zdvd_imp_le)
qed simp

lemma divisor_pairs_inj:
  fixes a b :: int
  assumes "coprime a b"
  shows "inj_on (\<lambda>(x, y). x * y) ({d. 0 < d \<and> d dvd a} \<times> {d. 0 < d \<and> d dvd b})"
proof -
  have left: "x = x'"
    if "x * y = x' * y'" "0 < x" "x dvd a" "0 < x'" "x' dvd a" "y dvd b" "y' dvd b"
    for x y x' y' :: int
  proof -
    from that assms have "coprime x y'" and "coprime x' y"
      by (auto intro: coprime_divisors)
    moreover from that(1) have "x dvd x' * y'" and "x' dvd x * y"
      by (metis dvd_triv_left)+
    ultimately have "x dvd x'" and "x' dvd x"
      by (simp_all add: coprime_dvd_mult_left_iff)
    with that(2,4) show "x = x'"
      by (intro zdvd_antisym_nonneg) simp_all
  qed
  show ?thesis
  proof (rule inj_onI, clarify)
    fix x y x' y' :: int
    assume h: "0 < x" "x dvd a" "0 < y" "y dvd b" "0 < x'" "x' dvd a" "0 < y'" "y' dvd b"
      and eq: "x * y = x' * y'"
    from left[OF eq h(1,2,5,6,4,8)] have x: "x = x'" .
    with eq h(1) have "y = y'" by simp
    with x show "x = x' \<and> y = y'" by simp
  qed
qed

lemma divisor_pairs_onto:
  fixes a b :: int
  shows "(\<lambda>(x, y). x * y) ` ({d. 0 < d \<and> d dvd a} \<times> {d. 0 < d \<and> d dvd b}) =
         {d. 0 < d \<and> d dvd a * b}"
proof (intro equalityI subsetI)
  fix d
  assume "d \<in> (\<lambda>(x, y). x * y) ` ({d. 0 < d \<and> d dvd a} \<times> {d. 0 < d \<and> d dvd b})"
  then show "d \<in> {d. 0 < d \<and> d dvd a * b}"
    by (auto intro: mult_dvd_mono)
next
  fix d
  assume "d \<in> {d. 0 < d \<and> d dvd a * b}"
  then have d: "0 < d" "d dvd a * b" by simp_all
  from division_decomp[OF d(2)] obtain x y where xy: "d = x * y" "x dvd a" "y dvd b"
    by blast
  from d(1) xy(1) have "x \<noteq> 0" and "y \<noteq> 0" by auto
  moreover from d(1) xy(1) have "d = \<bar>x\<bar> * \<bar>y\<bar>"
    by (metis abs_mult abs_of_pos)
  ultimately have "(\<bar>x\<bar>, \<bar>y\<bar>) \<in> {d. 0 < d \<and> d dvd a} \<times> {d. 0 < d \<and> d dvd b}"
    and "d = (\<lambda>(x, y). x * y) (\<bar>x\<bar>, \<bar>y\<bar>)"
    using xy(2,3) by simp_all
  then show "d \<in> (\<lambda>(x, y). x * y) ` ({d. 0 < d \<and> d dvd a} \<times> {d. 0 < d \<and> d dvd b})"
    by (rule image_eqI[rotated])
qed

lemma divisor_sum_mult:
  assumes "coprime a b" and "1 \<le> a" and "1 \<le> b"
  shows "divisor_sum (a * b) = divisor_sum a * divisor_sum b"
proof -
  let ?A = "{d. 0 < d \<and> d dvd a}" and ?B = "{d. 0 < d \<and> d dvd b}"
  from assms(2,3) have "1 \<le> a * b"
    by (metis mult_mono mult_1 zero_le_one order_trans)
  then have "divisor_sum (a * b) = \<Sum> {d. 0 < d \<and> d dvd a * b}"
    by (rule divisor_sum_positive)
  also have "\<dots> = \<Sum> ((\<lambda>(x, y). x * y) ` (?A \<times> ?B))"
    by (simp only: divisor_pairs_onto)
  also have "\<dots> = (\<Sum>(x, y) \<in> ?A \<times> ?B. x * y)"
    using divisor_pairs_inj[OF assms(1)] by (simp add: sum.reindex case_prod_unfold)
  also have "\<dots> = (\<Sum>x \<in> ?A. \<Sum>y \<in> ?B. x * y)"
    by (simp add: sum.cartesian_product)
  also have "\<dots> = \<Sum> ?A * \<Sum> ?B"
    by (simp add: sum_product)
  finally show ?thesis
    using assms(2,3) by (simp add: divisor_sum_positive)
qed

subsection \<open>Divisors of a prime power\<close>

lemma divisor_of_prime_power:
  assumes "is_prime p" and "0 < d" and "d dvd p ^ k"
  shows "\<exists>i \<le> k. d = p ^ i"
  using assms(2,3)
proof (induction k arbitrary: d)
  case 0
  then show ?case by simp
next
  case (Suc k)
  show ?case
  proof (cases "p dvd d")
    case True
    then obtain e where e: "d = p * e" ..
    from assms(1) have p: "0 < p" by (auto dest: is_prime_ge_2)
    with e Suc.prems have "0 < e" and "e dvd p ^ k"
      by (simp_all add: zero_less_mult_iff)
    from Suc.IH[OF this] obtain i where "i \<le> k" and "e = p ^ i" by blast
    with e have "Suc i \<le> Suc k" and "d = p ^ Suc i" by simp_all
    then show ?thesis by blast
  next
    case False
    with assms(1) have "coprime p d" by (rule is_prime_coprime)
    then have "coprime d (p ^ Suc k)"
      by (simp add: coprime_commute)
    with Suc.prems(2) have "is_unit d"
      by (metis coprime_common_divisor dvd_refl)
    with Suc.prems(1) have "d = p ^ 0" by simp
    then show ?thesis by blast
  qed
qed

lemma divisors_of_prime_power:
  assumes "is_prime p"
  shows "{d. 0 < d \<and> d dvd p ^ k} = (\<lambda>i. p ^ i) ` {0..k}"
proof (intro equalityI subsetI)
  fix d
  assume "d \<in> {d. 0 < d \<and> d dvd p ^ k}"
  with divisor_of_prime_power[OF assms, of d k] show "d \<in> (\<lambda>i. p ^ i) ` {0..k}"
    by auto
next
  fix d
  assume "d \<in> (\<lambda>i. p ^ i) ` {0..k}"
  then obtain i where "i \<le> k" and "d = p ^ i" by auto
  moreover from assms have "0 < p" by (auto dest: is_prime_ge_2)
  ultimately show "d \<in> {d. 0 < d \<and> d dvd p ^ k}"
    by (simp add: le_imp_power_dvd)
qed

lemma divisor_sum_prime_power:
  assumes "is_prime p"
  shows "divisor_sum (p ^ k) = (p ^ Suc k - 1) div (p - 1)"
proof -
  from assms have p: "2 \<le> p" by (rule is_prime_ge_2)
  then have "inj_on (\<lambda>i. p ^ i) {0..k}"
    by (intro inj_onI) simp
  moreover from p have "1 \<le> p ^ k" by simp
  ultimately have "divisor_sum (p ^ k) = (\<Sum>i \<in> {0..k}. p ^ i)"
    by (simp add: divisor_sum_positive divisors_of_prime_power[OF assms] sum.reindex)
  also have "{0..k} = {..<Suc k}" by auto
  finally have "divisor_sum (p ^ k) = (\<Sum>i<Suc k. p ^ i)" .
  moreover have "p ^ Suc k - 1 = (p - 1) * (\<Sum>i<Suc k. p ^ i)"
    by (rule power_diff_1_eq)
  moreover from p have "p - 1 \<noteq> 0" by simp
  ultimately show ?thesis by simp
qed

subsection \<open>The divisor-sum loop\<close>

lemma sigma_product_Cons:
  "sigma_product ((p, a) # fs) = (p ^ nat (a + 1) - 1) div (p - 1) * sigma_product fs"
  by (simp add: sigma_product_def)

lemma divisor_sum_1: "divisor_sum 1 = 1"
proof -
  have "{d \<in> {1..1::int}. d dvd 1} = {1}" by auto
  then show ?thesis by (simp add: divisor_sum_def)
qed

lemma divisor_sum_factorization:
  assumes "is_factorization n fs"
  shows "divisor_sum n = sigma_product fs"
  using assms
proof (induction fs arbitrary: n)
  case Nil
  then show ?case
    by (simp add: is_factorization_Nil divisor_sum_1 sigma_product_def)
next
  case (Cons x fs)
  obtain p a where x: "x = (p, a)" by (cases x)
  note f = is_factorization_Cons[OF Cons.prems[unfolded x]]
  from f(3) have "1 \<le> p ^ nat a" by (auto dest: is_prime_ge_2)
  with f have "divisor_sum n = divisor_sum (p ^ nat a) * divisor_sum (factors_product fs)"
    by (simp add: divisor_sum_mult)
  also from f have "divisor_sum (p ^ nat a) = (p ^ Suc (nat a) - 1) div (p - 1)"
    by (intro divisor_sum_prime_power)
  also from f(4) have "Suc (nat a) = nat (a + 1)" by simp
  also from f have "divisor_sum (factors_product fs) = sigma_product fs"
    by (intro Cons.IH)
  finally show ?case
    by (simp add: x sigma_product_Cons)
qed

lemma sigma_loop_product:
  assumes "\<forall>(p, a) \<in> set fs. 2 \<le> p"
  shows "sigma_loop tot fs = Inr (tot * sigma_product fs)"
  using assms
proof (induction fs arbitrary: tot)
  case Nil
  then show ?case by (simp add: sigma_product_def)
next
  case (Cons x fs)
  obtain p a where x: "x = (p, a)" by (cases x)
  with Cons.prems have "p - 1 \<noteq> 0" by simp
  moreover from Cons.prems have "sigma_loop (tot * ((p ^ nat (a + 1) - 1) div (p - 1))) fs =
      Inr (tot * ((p ^ nat (a + 1) - 1) div (p - 1)) * sigma_product fs)"
    by (intro Cons.IH) simp
  ultimately show ?case
    by (simp add: x py_floordiv_def sigma_product_Cons mult.assoc)
qed

lemma sigma_loop_factorization:
  assumes "is_factorization n fs"
  shows "calculate_sigma fs = Inr (divisor_sum n)"
proof -
  from assms have "\<forall>(p, a) \<in> set fs. 2 \<le> p"
    by (auto simp: is_factorization_def dest: is_prime_ge_2)
  from sigma_loop_product[OF this, of 1] assms show ?thesis
    by (simp add: calculate_sigma_def divisor_sum_factorization)
qed

lemma divisor_sum_ge:
  assumes "1 \<le> n"
  shows "n \<le> divisor_sum n"
proof -
  let ?D = "{d \<in> {1..n}. d dvd n}"
  have "finite ?D"
    by (rule finite_subset[of _ "{1..n}"]) auto
  moreover from assms have "n \<in> ?D" by simp
  moreover have "\<forall>d \<in> ?D - {n}. 0 \<le> d" by auto
  ultimately have "n \<le> (\<Sum>d \<in> ?D. d)"
    by (intro member_le_sum) auto
  then show ?thesis by (simp add: divisor_sum_def)
qed

lemma divisor_sum_le:
  assumes "1 \<le> n"
  shows "divisor_sum n \<le> n * n"
proof -
  let ?D = "{d \<in> {1..n}. d dvd n}"
  have "(\<Sum>d \<in> ?D. d) \<le> of_nat (card ?D) * n"
    by (rule sum_bounded_above) simp
  also have "card ?D \<le> card {1..n}"
    by (intro card_mono) auto
  then have "of_nat (card ?D) * n \<le> n * n"
    using assms by (intro mult_right_mono) simp_all
  finally show ?thesis by (simp add: divisor_sum_def)
qed

section \<open>Construction\<close>

lemma TPEPAnalyzer_result:
  assumes "1 \<le> n"
  shows "\<exists>fs. TPEPAnalyzer n =
            Some (Inr \<lparr>self_n = n, self_factors = fs,
                       phi_val = euler_totient n, sigma_val = divisor_sum n\<rparr>)
           \<and> get_prime_factors n = Some (Inr fs) \<and> is_factorization n fs"
proof -
  from get_prime_factors_result[OF assms]
  obtain fs where fs: "get_prime_factors n = Some (Inr fs)" and fact: "is_factorization n fs"
    by blast
  from fact have "calculate_phi n fs = Inr (euler_totient n)"
    by (simp add: calculate_phi_def phi_loop_factorization)
  moreover from fact have "calculate_sigma fs = Inr (divisor_sum n)"
    by (rule sigma_loop_factorization)
  ultimately have "TPEPAnalyzer n =
      Some (Inr \<lparr>self_n = n, self_factors = fs,
                 phi_val = euler_totient n, sigma_val = divisor_sum n\<rparr>)"
    using assms fs by (simp add: TPEPAnalyzer_def)
  with fs fact show ?thesis by blast
qed

lemma TPEPAnalyzer_invalid:
  "n < 1 \<Longrightarrow> TPEPAnalyzer n = Some (Inl (ValueError ''TPEP only applies to positive integers.''))"
  by (simp add: TPEPAnalyzer_def)

section \<open>Termination of the loops from any state\<close>

lemma inner_loop_terminates:
  assumes "2 \<le> d" and "1 \<le> temp"
  shows "\<exists>fs' temp'. inner_loop fs d temp = Some (Inr (fs', temp'))
           \<and> 1 \<le> temp' \<and> temp' \<le> temp \<and> (d dvd temp \<longrightarrow> temp' < temp)"
  using assms
proof (induction "nat temp" arbitrary: temp fs rule: less_induct)
  case less
  show ?case
  proof (cases "d dvd temp")
    case False
    with less.prems show ?thesis
      by (simp add: inner_loop_stop)
  next
    case True
    let ?t = "temp div d"
    from less.prems True have t: "1 \<le> ?t" "?t < temp"
      by (simp_all add: exact_div_bounds)
    then have "nat ?t < nat temp" by simp
    from less.hyps[OF this less.prems(1) t(1), of "dict_set d (dict_get fs d 0 + 1) fs"]
    obtain fs' temp' where
      "inner_loop (dict_set d (dict_get fs d 0 + 1) fs) d ?t = Some (Inr (fs', temp'))"
      and "1 \<le> temp'" and "temp' \<le> ?t"
      by blast
    with t(2) True less.prems(1) show ?thesis
      by (simp add: inner_loop_step)
  qed
qed

lemma outer_loop_terminates:
  assumes "2 \<le> d" and "1 \<le> temp"
  shows "\<exists>fs' temp'. outer_loop fs d temp = Some (Inr (fs', temp')) \<and> temp' \<le> temp"
  using assms
proof (induction "nat (temp + 1 - d)" arbitrary: fs d temp rule: less_induct)
  case less
  show ?case
  proof (cases "d * d \<le> temp")
    case False
    then show ?thesis
      by (simp add: outer_loop_stop)
  next
    case True
    from inner_loop_terminates[OF less.prems, of fs]
    obtain fs1 temp1 where inner: "inner_loop fs d temp = Some (Inr (fs1, temp1))"
      and t1: "1 \<le> temp1" "temp1 \<le> temp"
      by blast
    have "d \<le> d * d"
      using less.prems(1) by (simp add: mult_le_cancel_left1)
    with True t1 have "nat (temp1 + 1 - (d + 1)) < nat (temp + 1 - d)"
      by simp
    from less.hyps[OF this _ t1(1), of fs1] less.prems(1)
    obtain fs' temp' where "outer_loop fs1 (d + 1) temp1 = Some (Inr (fs', temp'))"
      and "temp' \<le> temp1"
      by auto
    with t1(2) True inner show ?thesis
      by (simp add: outer_loop_step)
  qed
qed

section \<open>A number has one prime factorization\<close>

lemma is_prime_dvd_mult:
  assumes "is_prime p" and "p dvd a * b"
  shows "p dvd a \<or> p dvd b"
proof (cases "p dvd a")
  case False
  with assms(1) have "coprime p a" by (rule is_prime_coprime)
  with assms(2) have "p dvd b"
    by (simp add: coprime_dvd_mult_right_iff)
  then show ?thesis ..
qed simp

lemma is_prime_dvd_power:
  assumes "is_prime p" and "p dvd q ^ k"
  shows "p dvd q"
  using assms(2)
proof (induction k)
  case 0
  with assms(1) show ?case
    by (auto dest: is_prime_ge_2)
next
  case (Suc k)
  with is_prime_dvd_mult[OF assms(1), of q "q ^ k"] show ?case
    by auto
qed

lemma is_prime_dvd_prime:
  assumes "is_prime p" and "is_prime q" and "p dvd q"
  shows "p = q"
proof -
  from assms(1) have "0 < p" and "p \<noteq> 1"
    by (auto dest: is_prime_ge_2)
  with is_prime_divisor[OF assms(2) _ assms(3)] show ?thesis
    by simp
qed

lemma prime_divisor_is_key:
  assumes "\<forall>(p, a) \<in> set fs. is_prime p \<and> 1 \<le> a"
    and "is_prime q" and "q dvd factors_product fs"
  shows "q \<in> fst ` set fs"
  using assms(1,3)
proof (induction fs)
  case Nil
  with assms(2) show ?case
    by (auto simp: factors_product_def dest: is_prime_ge_2)
next
  case (Cons x fs)
  obtain p a where x: "x = (p, a)" by (cases x)
  from Cons.prems(2) have "q dvd p ^ nat a * factors_product fs"
    by (simp add: x factors_product_Cons)
  then consider "q dvd p ^ nat a" | "q dvd factors_product fs"
    using is_prime_dvd_mult[OF assms(2)] by blast
  then show ?case
  proof cases
    case 1
    with assms(2) have "q dvd p" by (rule is_prime_dvd_power)
    moreover from Cons.prems(1) x have "is_prime p" by simp
    ultimately have "q = p"
      using assms(2) by (intro is_prime_dvd_prime)
    with x show ?thesis by simp
  next
    case 2
    with Cons have "q \<in> fst ` set fs" by simp
    then show ?thesis by simp
  qed
qed

lemma key_divides:
  assumes "(p, a) \<in> set fs"
  shows "p ^ nat a dvd factors_product fs"
  using assms
proof (induction fs)
  case Nil
  then show ?case by simp
next
  case (Cons x fs)
  then show ?case
    by (cases x) (auto simp: factors_product_Cons)
qed

lemma prime_divisors_are_keys:
  assumes "is_factorization n fs"
  shows "fst ` set fs = {p. is_prime p \<and> p dvd n}"
proof (intro equalityI subsetI)
  fix p
  assume "p \<in> fst ` set fs"
  then obtain a where pa: "(p, a) \<in> set fs" by auto
  with assms have "is_prime p" and "1 \<le> a"
    by (auto simp: is_factorization_def)
  moreover from key_divides[OF pa] assms have "p ^ nat a dvd n"
    by (simp add: is_factorization_def)
  moreover from \<open>1 \<le> a\<close> have "p dvd p ^ nat a"
    by (simp add: power_nat_pred)
  ultimately show "p \<in> {p. is_prime p \<and> p dvd n}"
    using dvd_trans by blast
next
  fix p
  assume "p \<in> {p. is_prime p \<and> p dvd n}"
  with assms show "p \<in> fst ` set fs"
    by (intro prime_divisor_is_key) (auto simp: is_factorization_def)
qed

lemma exponent_is_multiplicity:
  assumes "is_factorization n fs" and "(p, a) \<in> set fs"
  shows "p ^ nat a dvd n" and "\<not> p ^ Suc (nat a) dvd n"
proof -
  from key_divides[OF assms(2)] assms(1) show "p ^ nat a dvd n"
    by (simp add: is_factorization_def)
  from assms(2) obtain fs1 fs2 where fs: "fs = fs1 @ (p, a) # fs2"
    by (auto simp: in_set_conv_decomp)
  from assms(1) have p: "is_prime p"
    and all: "\<forall>(q, b) \<in> set fs. is_prime q \<and> 1 \<le> b"
    and dist: "distinct (map fst fs)"
    and n: "n = factors_product fs"
    using assms(2) by (auto simp: is_factorization_def)
  from all fs have "\<forall>(q, b) \<in> set (fs1 @ fs2). is_prime q \<and> 1 \<le> b" by auto
  moreover from dist fs have "p \<notin> fst ` set (fs1 @ fs2)" by auto
  ultimately have cop: "coprime p (factors_product (fs1 @ fs2))"
    using p by (intro coprime_factors_product)
  have n': "n = p ^ nat a * factors_product (fs1 @ fs2)"
    by (simp add: n fs factors_product_append factors_product_Cons)
  show "\<not> p ^ Suc (nat a) dvd n"
  proof
    assume "p ^ Suc (nat a) dvd n"
    then have "p ^ nat a * p dvd p ^ nat a * factors_product (fs1 @ fs2)"
      by (simp add: n' mult.commute)
    moreover from p have "p ^ nat a \<noteq> 0"
      by (auto dest: is_prime_ge_2)
    ultimately have "p dvd factors_product (fs1 @ fs2)"
      by (simp only: dvd_mult_cancel_left) simp
    with cop have "is_unit p"
      by (metis coprime_common_divisor dvd_refl)
    with p show False
      by (auto dest: is_prime_ge_2)
  qed
qed

lemma factorization_entries_subset:
  assumes "is_factorization n fs" and "is_factorization n gs"
  shows "set fs \<subseteq> set gs"
proof
  fix x
  assume x: "x \<in> set fs"
  obtain p a where pa: "x = (p, a)" by (cases x)
  with x have "p \<in> fst ` set fs" by force
  then have "p \<in> fst ` set gs"
    by (simp add: prime_divisors_are_keys[OF assms(1)] prime_divisors_are_keys[OF assms(2)])
  then obtain b where pb: "(p, b) \<in> set gs" by auto
  from assms pa x pb have a: "1 \<le> a" and b: "1 \<le> b" and p: "2 \<le> p"
    by (auto simp: is_factorization_def dest: is_prime_ge_2)
  note ma = exponent_is_multiplicity[OF assms(1) x[unfolded pa]]
  note mb = exponent_is_multiplicity[OF assms(2) pb]
  have "nat a = nat b"
  proof (rule ccontr)
    assume "nat a \<noteq> nat b"
    then consider "Suc (nat a) \<le> nat b" | "Suc (nat b) \<le> nat a" by linarith
    then show False
    proof cases
      case 1
      then have "p ^ Suc (nat a) dvd p ^ nat b" by (rule le_imp_power_dvd)
      with mb(1) ma(2) show False using dvd_trans by blast
    next
      case 2
      then have "p ^ Suc (nat b) dvd p ^ nat a" by (rule le_imp_power_dvd)
      with ma(1) mb(2) show False using dvd_trans by blast
    qed
  qed
  with a b have "a = b" by simp
  with pa pb show "x \<in> set gs" by simp
qed

lemma factorization_unique:
  assumes "is_factorization n fs" and "is_factorization n gs"
  shows "set fs = set gs"
  using factorization_entries_subset[OF assms] factorization_entries_subset[OF assms(2,1)]
  by blast

section \<open>The rounding is to the nearest float\<close>

lemma bit_length_bounds:
  assumes "1 \<le> k"
  shows "1 \<le> bit_length k" and "2 ^ nat (bit_length k - 1) \<le> k" and "k < 2 ^ nat (bit_length k)"
  using assms
proof (induction k rule: bit_length.induct)
  case (1 k)
  assume k: "1 \<le> k"
  have unfold: "bit_length k = 1 + bit_length (k div 2)"
    using k by (subst bit_length.simps) simp
  {
    assume "k = 1"
    then have "bit_length k = 1"
      by (simp add: bit_length.simps)
    with \<open>k = 1\<close> have "1 \<le> bit_length k \<and> 2 ^ nat (bit_length k - 1) \<le> k
        \<and> k < 2 ^ nat (bit_length k)"
      by simp
  }
  moreover
  {
    assume "k \<noteq> 1"
    with k have h: "1 \<le> k div 2" by simp
    let ?b = "bit_length (k div 2)"
    from k h "1.IH" have b: "1 \<le> ?b" "2 ^ nat (?b - 1) \<le> k div 2" "k div 2 < 2 ^ nat ?b"
      by simp_all
    from b(1) have e: "nat ?b = Suc (nat (?b - 1))" by simp
    have "2 * 2 ^ nat (?b - 1) \<le> 2 * (k div 2)"
      using b(2) by simp
    also have "\<dots> \<le> k" by simp
    finally have lo: "2 ^ nat ?b \<le> k"
      by (simp add: e)
    from b(3) have "k div 2 + 1 \<le> 2 ^ nat ?b" by simp
    then have "2 * (k div 2 + 1) \<le> 2 * 2 ^ nat ?b" by simp
    moreover have "k < 2 * (k div 2 + 1)" by simp
    ultimately have hi: "k < 2 ^ nat (1 + ?b)"
      using b(1) by (simp add: nat_add_distrib)
    from b(1) lo hi have "1 \<le> bit_length k \<and> 2 ^ nat (bit_length k - 1) \<le> k
        \<and> k < 2 ^ nat (bit_length k)"
      by (simp add: unfold)
  }
  ultimately show "1 \<le> bit_length k" and "2 ^ nat (bit_length k - 1) \<le> k"
    and "k < 2 ^ nat (bit_length k)"
    by blast+
qed

lemma pow2_power_int: "pow2 e = 2 powi e"
  by (simp add: pow2_def power_int_def power_one_over inverse_eq_divide)

lemma pow2_pos: "0 < pow2 e"
  by (simp add: pow2_power_int)

lemma pow2_add: "pow2 (a + b) = pow2 a * pow2 b"
  by (simp add: pow2_power_int power_int_add)

lemma pow2_nat: "0 \<le> e \<Longrightarrow> pow2 e = 2 ^ nat e"
  by (simp add: pow2_def)

lemma pow2_neg: "0 \<le> e \<Longrightarrow> pow2 (- e) = 1 / 2 ^ nat e"
  by (cases "e = 0") (simp_all add: pow2_def)

lemma pow2_shift:
  shows "pow2 (e + 1) = 2 * pow2 e" and "pow2 (e - 53) = pow2 (e - 52) / 2"
  and "pow2 e = 2 ^ 52 * pow2 (e - 52)" and "pow2 (e + 1) = 2 ^ 53 * pow2 (e - 52)"
proof -
  have one: "pow2 1 = 2" and a: "pow2 52 = 2 ^ 52" and b: "pow2 53 = 2 ^ 53"
    by (simp_all add: pow2_def)
  show "pow2 (e + 1) = 2 * pow2 e"
    using pow2_add[of e 1] by (simp only: one mult.commute)
  show "pow2 (e - 53) = pow2 (e - 52) / 2"
    using pow2_add[of "e - 53" 1] by (simp only: one) simp
  show "pow2 e = 2 ^ 52 * pow2 (e - 52)"
    using pow2_add[of 52 "e - 52"] by (simp only: a) simp
  show "pow2 (e + 1) = 2 ^ 53 * pow2 (e - 52)"
    using pow2_add[of 53 "e - 52"] by (simp only: b) (simp add: add.commute)
qed

lemma binade_bounds:
  assumes "x \<noteq> 0"
  shows "pow2 (binade x) \<le> \<bar>x\<bar>" and "\<bar>x\<bar> < pow2 (binade x + 1)"
proof -
  define y where "y = \<bar>x\<bar>"
  from assms have y: "0 < y" by (simp add: y_def)
  have "pow2 (binade x) \<le> y \<and> y < pow2 (binade x + 1)"
  proof (cases "1 \<le> y")
    case True
    define k where "k = \<lfloor>y\<rfloor>"
    from True have k: "1 \<le> k" by (simp add: k_def le_floor_iff)
    note b = bit_length_bounds[OF k]
    from True have e: "binade x = bit_length k - 1"
      by (simp add: binade_def y_def[symmetric] k_def Let_def)
    have "(2::rat) ^ nat (bit_length k - 1) = of_int (2 ^ nat (bit_length k - 1))" by simp
    also have "\<dots> \<le> of_int k" using b(2) by (simp only: of_int_le_iff)
    also have "\<dots> \<le> y" by (simp add: k_def)
    finally have lo: "pow2 (binade x) \<le> y"
      using b(1) by (simp add: e pow2_nat)
    from b(3) have "k + 1 \<le> 2 ^ nat (bit_length k)" by simp
    then have "(of_int (k + 1) :: rat) \<le> of_int (2 ^ nat (bit_length k))"
      by (simp only: of_int_le_iff)
    moreover have "y < of_int (k + 1)"
      using floor_correct[of y] by (simp add: k_def)
    ultimately have "y < 2 ^ nat (bit_length k)" by simp
    with b(1) have hi: "y < pow2 (binade x + 1)"
      by (simp add: e pow2_nat)
    from lo hi show ?thesis ..
  next
    case False
    with y have y1: "y < 1" by simp
    define z where "z = 1 / y"
    from y y1 have z: "1 < z" by (simp add: z_def)
    define k where "k = \<lceil>z\<rceil> - 1"
    from z have k: "1 \<le> k" by (simp add: k_def less_ceiling_iff)
    note b = bit_length_bounds[OF k]
    from False have e: "binade x = - bit_length k"
      by (simp add: binade_def y_def[symmetric] k_def z_def Let_def)
    have kz: "of_int k < z" and zk: "z \<le> of_int (k + 1)"
      by (simp_all add: k_def ceiling_correct)
    from b(3) have "k + 1 \<le> 2 ^ nat (bit_length k)" by simp
    then have "(of_int (k + 1) :: rat) \<le> of_int (2 ^ nat (bit_length k))"
      by (simp only: of_int_le_iff)
    with zk have "z \<le> 2 ^ nat (bit_length k)" by simp
    with y have "1 / 2 ^ nat (bit_length k) \<le> y"
      by (simp add: z_def field_simps)
    with b(1) have lo: "pow2 (binade x) \<le> y"
      by (simp add: e pow2_neg)
    have "(2::rat) ^ nat (bit_length k - 1) = of_int (2 ^ nat (bit_length k - 1))" by simp
    also have "\<dots> \<le> of_int k" using b(2) by (simp only: of_int_le_iff)
    also note kz
    finally have "y < 1 / 2 ^ nat (bit_length k - 1)"
      using y by (simp add: z_def field_simps)
    moreover from b(1) have "pow2 (- bit_length k + 1) = 1 / 2 ^ nat (bit_length k - 1)"
      using pow2_neg[of "bit_length k - 1"] by simp
    ultimately have hi: "y < pow2 (binade x + 1)"
      by (simp add: e)
    from lo hi show ?thesis ..
  qed
  then show "pow2 (binade x) \<le> \<bar>x\<bar>" and "\<bar>x\<bar> < pow2 (binade x + 1)"
    by (simp_all add: y_def)
qed

lemma round_half_even_bounds:
  shows "\<lfloor>x\<rfloor> \<le> round_half_even x" and "round_half_even x \<le> \<lfloor>x\<rfloor> + 1"
    and "\<bar>of_int (round_half_even x) - x\<bar> \<le> 1 / 2"
proof -
  define r where "r = x - of_int \<lfloor>x\<rfloor>"
  have r: "0 \<le> r" "r < 1"
    using floor_correct[of x] by (simp_all add: r_def)
  show "\<lfloor>x\<rfloor> \<le> round_half_even x" and "round_half_even x \<le> \<lfloor>x\<rfloor> + 1"
    by (simp_all add: round_half_even_def Let_def)
  consider "r < 1 / 2" | "1 / 2 < r" | "r = 1 / 2"
    by linarith
  then show "\<bar>of_int (round_half_even x) - x\<bar> \<le> 1 / 2"
  proof cases
    case 1
    then have "round_half_even x = \<lfloor>x\<rfloor>"
      by (simp add: round_half_even_def r_def Let_def)
    with 1 r show ?thesis by (simp add: r_def)
  next
    case 2
    then have "round_half_even x = \<lfloor>x\<rfloor> + 1"
      by (simp add: round_half_even_def r_def Let_def)
    with 2 r show ?thesis by (simp add: r_def)
  next
    case 3
    then have "round_half_even x = \<lfloor>x\<rfloor> \<or> round_half_even x = \<lfloor>x\<rfloor> + 1"
      by (simp add: round_half_even_def r_def Let_def)
    with 3 show ?thesis by (auto simp: r_def)
  qed
qed

lemma round_binary64_error:
  assumes "x \<noteq> 0"
  shows "\<bar>round_binary64 x - x\<bar> \<le> pow2 (binade x - 53)"
proof -
  define u where "u = pow2 (binade x - 52)"
  have u: "0 < u" by (simp add: u_def pow2_pos)
  have half: "u / 2 = pow2 (binade x - 53)"
    by (simp only: u_def pow2_shift(2))
  from assms have "round_binary64 x - x = (of_int (round_half_even (x / u)) - x / u) * u"
    using u by (simp add: round_binary64_def u_def[symmetric] Let_def algebra_simps)
  then have "\<bar>round_binary64 x - x\<bar> = \<bar>of_int (round_half_even (x / u)) - x / u\<bar> * u"
    using u by (simp add: abs_mult)
  also have "\<dots> \<le> 1 / 2 * u"
    using u round_half_even_bounds(3)[of "x / u"] by (intro mult_right_mono) simp_all
  finally show ?thesis by (simp add: half)
qed

lemma round_binary64_significand:
  assumes "x \<noteq> 0"
  shows "\<exists>m. round_binary64 x = of_int m * pow2 (binade x - 52)
           \<and> 2 ^ 52 \<le> \<bar>m\<bar> \<and> \<bar>m\<bar> \<le> 2 ^ 53"
proof -
  define u where "u = pow2 (binade x - 52)"
  have u: "0 < u" by (simp add: u_def pow2_pos)
  define t where "t = x / u"
  define m where "m = round_half_even t"
  have lo: "pow2 (binade x) = 2 ^ 52 * u"
    unfolding u_def by (rule pow2_shift(3))
  have hi: "pow2 (binade x + 1) = 2 ^ 53 * u"
    unfolding u_def by (rule pow2_shift(4))
  from u have "\<bar>t\<bar> = \<bar>x\<bar> / u"
    by (simp add: t_def)
  with u binade_bounds(1)[OF assms, unfolded lo] binade_bounds(2)[OF assms, unfolded hi]
  have t: "2 ^ 52 \<le> \<bar>t\<bar>" "\<bar>t\<bar> < 2 ^ 53"
    by (simp_all add: pos_le_divide_eq pos_divide_less_eq)
  have val: "round_binary64 x = of_int m * u"
    using assms by (simp add: round_binary64_def u_def[symmetric] t_def m_def Let_def)
  define f where "f = \<lfloor>t\<rfloor>"
  note b = round_half_even_bounds(1,2)[of t, folded m_def f_def]
  have "2 ^ 52 \<le> \<bar>m\<bar> \<and> \<bar>m\<bar> \<le> 2 ^ 53"
  proof (cases "0 \<le> t")
    case True
    with t have "(of_int (2 ^ 52) :: rat) \<le> t" and "t < of_int (2 ^ 53)" by simp_all
    then have "2 ^ 52 \<le> f" and "f < 2 ^ 53"
      unfolding f_def by (simp_all only: le_floor_iff floor_less_iff)
    with b show ?thesis by simp
  next
    case False
    with t have le: "t \<le> of_int (- (2 ^ 52))" and "of_int (- (2 ^ 53)) < t" by simp_all
    then have f: "f \<le> - (2 ^ 52)" "- (2 ^ 53) \<le> f"
      unfolding f_def by (simp_all only: floor_le_iff le_floor_iff)
    have "m \<le> - (2 ^ 52)"
    proof (cases "t = of_int f")
      case True
      then have "m = f"
        by (simp add: m_def round_half_even_def Let_def)
      with f show ?thesis by simp
    next
      case False
      with le have "t < of_int (- (2 ^ 52))"
        unfolding f_def by (metis floor_of_int order_le_less)
      then have "f < - (2 ^ 52)"
        unfolding f_def by (simp only: floor_less_iff)
      with b show ?thesis by simp
    qed
    with b f show ?thesis by simp
  qed
  with val show ?thesis
    unfolding u_def by blast
qed

lemma round_binary64_ge_1:
  assumes "1 \<le> x"
  shows "1 \<le> round_binary64 x"
proof -
  from assms have x: "x \<noteq> 0" by simp
  define u where "u = pow2 (binade x - 52)"
  have u: "0 < u" by (simp add: u_def pow2_pos)
  have lo: "pow2 (binade x) = 2 ^ 52 * u"
    unfolding u_def by (rule pow2_shift(3))
  from assms have "1 \<le> \<lfloor>\<bar>x\<bar>\<rfloor>" by (simp add: le_floor_iff)
  from bit_length_bounds(1)[OF this] assms have e: "0 \<le> binade x"
    by (simp add: binade_def Let_def)
  from binade_bounds(1)[OF x, unfolded lo] assms u have "(of_int (2 ^ 52) :: rat) \<le> x / u"
    by (simp add: pos_le_divide_eq)
  then have "2 ^ 52 \<le> \<lfloor>x / u\<rfloor>"
    by (simp only: le_floor_iff)
  with round_half_even_bounds(1)[of "x / u"] have "2 ^ 52 \<le> round_half_even (x / u)"
    by (rule order_trans[rotated])
  then have "(of_int (2 ^ 52) :: rat) \<le> of_int (round_half_even (x / u))"
    by (simp only: of_int_le_iff)
  with u have "of_int (2 ^ 52) * u \<le> of_int (round_half_even (x / u)) * u"
    by (intro mult_right_mono) simp_all
  moreover from e have "1 \<le> pow2 (binade x)"
    by (simp add: pow2_nat)
  then have "1 \<le> of_int (2 ^ 52) * u"
    by (simp add: lo)
  ultimately have "1 \<le> of_int (round_half_even (x / u)) * u"
    by (rule order_trans[rotated])
  with x show ?thesis
    by (simp add: round_binary64_def u_def[symmetric] Let_def)
qed

lemma round_binary64_2: "round_binary64 2 = 2"
  by code_simp

lemma perfection_ratio_sound:
  assumes "TPEPAnalyzer n = Some (Inr a)"
  shows "\<exists>rho. perfection_ratio a = Inr rho \<and> 1 \<le> rho
           \<and> (sigma_val a = 2 * self_n a \<longrightarrow> rho = 2)"
proof -
  from assms have n: "1 \<le> n"
    by (cases "n < 1") (simp_all add: TPEPAnalyzer_invalid)
  from TPEPAnalyzer_result[OF n] assms
  have sn: "self_n a = n" and sg: "sigma_val a = divisor_sum n"
    by auto
  define x :: rat where "x = of_int (sigma_val a) / of_int n"
  from n have n0: "(0::rat) < of_int n" by simp
  have "(of_int n :: rat) \<le> of_int (sigma_val a)"
    using divisor_sum_ge[OF n] by (simp only: sg of_int_le_iff)
  with n0 have "1 \<le> x"
    by (simp add: x_def)
  then have "1 \<le> round_binary64 x"
    by (rule round_binary64_ge_1)
  moreover have "perfection_ratio a = Inr (round_binary64 x)"
    using n by (simp add: perfection_ratio_def int_truediv_def sn x_def)
  moreover have "round_binary64 x = 2" if "sigma_val a = 2 * self_n a"
  proof -
    from that n0 have "x = 2" by (simp add: x_def sn)
    then show ?thesis by (simp add: round_binary64_2)
  qed
  ultimately show ?thesis by blast
qed

section \<open>The claims\<close>

text \<open>
  C1. For every integer \<open>n \<ge> 1\<close> the factor mapping computed at construction is the
  unique prime factorization of \<open>n\<close>: \<open>_get_prime_factors\<close> returns a mapping whose
  product of \<open>p ^ exponent\<close> over all entries is \<open>n\<close>, whose keys are distinct primes
  from 2 on and whose exponents are at least 1; for \<open>n = 1\<close> the mapping is empty; and
  every prime factorization of \<open>n\<close> has the same entries.
\<close>

theorem get_prime_factors_factorization:
  assumes "1 \<le> n"
  shows "\<exists>fs. get_prime_factors n = Some (Inr fs)
           \<and> factors_product fs = n
           \<and> distinct (map fst fs)
           \<and> (\<forall>(p, a) \<in> set fs. is_prime p \<and> 2 \<le> p \<and> 1 \<le> a)
           \<and> (n = 1 \<longrightarrow> fs = [])
           \<and> (\<forall>gs. is_factorization n gs \<longrightarrow> set gs = set fs)"
proof -
  from get_prime_factors_result[OF assms]
  obtain fs where fs: "get_prime_factors n = Some (Inr fs)" and fact: "is_factorization n fs"
    by blast
  from fact have "\<forall>(p, a) \<in> set fs. is_prime p \<and> 2 \<le> p \<and> 1 \<le> a"
    by (auto simp: is_factorization_def dest: is_prime_ge_2)
  moreover from fs have "n = 1 \<longrightarrow> fs = []"
    by (auto simp: get_prime_factors_1)
  moreover from fact have "\<forall>gs. is_factorization n gs \<longrightarrow> set gs = set fs"
    using factorization_unique by blast
  moreover from fact have "factors_product fs = n" and "distinct (map fst fs)"
    by (simp_all add: is_factorization_def)
  ultimately show ?thesis
    using fs by blast
qed

theorem get_prime_factors_factorization_witness:
  "(1::int) \<le> 28 \<and> (\<exists>fs. get_prime_factors 28 = Some (Inr fs)
           \<and> factors_product fs = 28
           \<and> distinct (map fst fs)
           \<and> (\<forall>(p, a) \<in> set fs. is_prime p \<and> 2 \<le> p \<and> 1 \<le> a)
           \<and> (\<forall>gs. is_factorization 28 gs \<longrightarrow> set gs = set fs))"
  using get_prime_factors_factorization [of 28] by simp

text \<open>
  C2. For every integer \<open>n \<ge> 1\<close> the \<open>phi\<close> value computed at construction is Euler's
  totient of \<open>n\<close>, the count of the integers in \<open>[1, n]\<close> coprime to \<open>n\<close>; it lies
  between 1 and \<open>n\<close>, and it is 1 when \<open>n = 1\<close>.
\<close>

theorem phi_val_is_totient:
  assumes "1 \<le> n"
  shows "\<exists>a. TPEPAnalyzer n = Some (Inr a)
           \<and> phi_val a = euler_totient n
           \<and> phi_val a = int (card {k \<in> {1..n}. coprime k n})
           \<and> 1 \<le> phi_val a \<and> phi_val a \<le> n
           \<and> (n = 1 \<longrightarrow> phi_val a = 1)"
proof -
  from TPEPAnalyzer_result[OF assms] obtain fs where
    "TPEPAnalyzer n = Some (Inr \<lparr>self_n = n, self_factors = fs,
        phi_val = euler_totient n, sigma_val = divisor_sum n\<rparr>)"
    by blast
  then obtain A where A: "TPEPAnalyzer n = Some (Inr A)" and phi: "phi_val A = euler_totient n"
    by simp
  from phi have "phi_val A = int (card {k \<in> {1..n}. coprime k n})"
    by (simp only: euler_totient_def)
  moreover from phi have "n = 1 \<longrightarrow> phi_val A = 1"
    using euler_totient_1 by simp
  moreover from phi have "1 \<le> phi_val A" and "phi_val A \<le> n"
    using euler_totient_bounds[OF assms] by simp_all
  ultimately show ?thesis
    using A phi by blast
qed

theorem phi_val_is_totient_witness:
  "(1::int) \<le> 28 \<and> (\<exists>a. TPEPAnalyzer 28 = Some (Inr a)
           \<and> phi_val a = euler_totient 28
           \<and> phi_val a = int (card {k \<in> {1..28}. coprime k (28::int)})
           \<and> 1 \<le> phi_val a \<and> phi_val a \<le> 28)"
  using phi_val_is_totient [of 28] by simp

text \<open>
  C3. For every integer \<open>n \<ge> 1\<close> the \<open>sigma\<close> value computed at construction is the sum
  of all positive divisors of \<open>n\<close>, \<open>n\<close> itself included; it is at least \<open>n\<close>, and it is
  1 when \<open>n = 1\<close>.
\<close>

theorem sigma_val_is_divisor_sum:
  assumes "1 \<le> n"
  shows "\<exists>a. TPEPAnalyzer n = Some (Inr a)
           \<and> sigma_val a = divisor_sum n
           \<and> sigma_val a = \<Sum> {d \<in> {1..n}. d dvd n}
           \<and> n \<le> sigma_val a
           \<and> (n = 1 \<longrightarrow> sigma_val a = 1)"
proof -
  from TPEPAnalyzer_result[OF assms] obtain fs where
    "TPEPAnalyzer n = Some (Inr \<lparr>self_n = n, self_factors = fs,
        phi_val = euler_totient n, sigma_val = divisor_sum n\<rparr>)"
    by blast
  then obtain A where A: "TPEPAnalyzer n = Some (Inr A)" and sigma: "sigma_val A = divisor_sum n"
    by simp
  from sigma have "sigma_val A = \<Sum> {d \<in> {1..n}. d dvd n}"
    by (simp only: divisor_sum_def)
  moreover from sigma have "n = 1 \<longrightarrow> sigma_val A = 1"
    using divisor_sum_1 by simp
  moreover from sigma have "n \<le> sigma_val A"
    using divisor_sum_ge[OF assms] by simp
  ultimately show ?thesis
    using A sigma by blast
qed

theorem sigma_val_is_divisor_sum_witness:
  "(1::int) \<le> 28 \<and> (\<exists>a. TPEPAnalyzer 28 = Some (Inr a)
           \<and> sigma_val a = divisor_sum 28
           \<and> sigma_val a = \<Sum> {d \<in> {1..28}. d dvd (28::int)}
           \<and> 28 \<le> sigma_val a)"
  using sigma_val_is_divisor_sum [of 28] by simp

text \<open>
  C5. Construction fails with a \<open>ValueError\<close> that carries a message exactly when
  \<open>n < 1\<close>, so for \<open>n = 0\<close> and for every negative integer, and then no instance is
  returned; for every \<open>n \<ge> 1\<close> construction returns an instance that holds \<open>n\<close>, the
  factors \<open>_get_prime_factors\<close> computed, and the \<open>phi\<close> and \<open>sigma\<close> that
  \<open>_calculate_phi\<close> and \<open>_calculate_sigma\<close> computed from them.
\<close>

theorem construction_fails_iff_below_1:
  "((\<exists>e. TPEPAnalyzer n = Some (Inl e)) \<longleftrightarrow> n < 1)
   \<and> (n < 1 \<longrightarrow>
        TPEPAnalyzer n = Some (Inl (ValueError ''TPEP only applies to positive integers.'')))
   \<and> (1 \<le> n \<longrightarrow>
        (\<exists>a. TPEPAnalyzer n = Some (Inr a) \<and> self_n a = n
           \<and> get_prime_factors n = Some (Inr (self_factors a))
           \<and> calculate_phi n (self_factors a) = Inr (phi_val a)
           \<and> calculate_sigma (self_factors a) = Inr (sigma_val a)))"
proof (cases "n < 1")
  case True
  then show ?thesis
    by (simp add: TPEPAnalyzer_invalid)
next
  case False
  then have n: "1 \<le> n" by simp
  from TPEPAnalyzer_result[OF n] obtain fs where
    a: "TPEPAnalyzer n = Some (Inr \<lparr>self_n = n, self_factors = fs,
        phi_val = euler_totient n, sigma_val = divisor_sum n\<rparr>)"
    and fs: "get_prime_factors n = Some (Inr fs)" and fact: "is_factorization n fs"
    by blast
  from fact have "calculate_phi n fs = Inr (euler_totient n)"
    by (simp add: calculate_phi_def phi_loop_factorization)
  moreover from fact have "calculate_sigma fs = Inr (divisor_sum n)"
    by (rule sigma_loop_factorization)
  ultimately show ?thesis
    using a fs n by simp
qed

theorem construction_fails_iff_below_1_witness:
  "TPEPAnalyzer 0 = Some (Inl (ValueError ''TPEP only applies to positive integers.''))
   \<and> TPEPAnalyzer (- 5) = Some (Inl (ValueError ''TPEP only applies to positive integers.''))
   \<and> (\<exists>a. TPEPAnalyzer 28 = Some (Inr a) \<and> self_n a = 28
           \<and> get_prime_factors 28 = Some (Inr (self_factors a))
           \<and> calculate_phi 28 (self_factors a) = Inr (phi_val a)
           \<and> calculate_sigma (self_factors a) = Inr (sigma_val a))"
  using construction_fails_iff_below_1 [of 0] construction_fails_iff_below_1 [of "- 5"]
    construction_fails_iff_below_1 [of 28]
  by simp

text \<open>
  C7. For all coprime integers \<open>a \<ge> 1\<close> and \<open>b \<ge> 1\<close> the values computed at construction
  are multiplicative: the \<open>phi\<close> of \<open>a * b\<close> is the product of the \<open>phi\<close> of \<open>a\<close> and the
  \<open>phi\<close> of \<open>b\<close>, and likewise for \<open>sigma\<close>.
\<close>

theorem phi_sigma_multiplicative:
  assumes "coprime a b" and "1 \<le> a" and "1 \<le> b"
  shows "\<exists>A B C. TPEPAnalyzer a = Some (Inr A) \<and> TPEPAnalyzer b = Some (Inr B)
           \<and> TPEPAnalyzer (a * b) = Some (Inr C)
           \<and> phi_val C = phi_val A * phi_val B
           \<and> sigma_val C = sigma_val A * sigma_val B"
proof -
  from assms(2,3) have ab: "1 \<le> a * b"
    by (metis mult_mono mult_1 zero_le_one order_trans)
  from TPEPAnalyzer_result[OF assms(2)] TPEPAnalyzer_result[OF assms(3)]
    TPEPAnalyzer_result[OF ab]
  obtain fa fb fc where
    "TPEPAnalyzer a = Some (Inr \<lparr>self_n = a, self_factors = fa,
        phi_val = euler_totient a, sigma_val = divisor_sum a\<rparr>)"
    "TPEPAnalyzer b = Some (Inr \<lparr>self_n = b, self_factors = fb,
        phi_val = euler_totient b, sigma_val = divisor_sum b\<rparr>)"
    "TPEPAnalyzer (a * b) = Some (Inr \<lparr>self_n = a * b, self_factors = fc,
        phi_val = euler_totient (a * b), sigma_val = divisor_sum (a * b)\<rparr>)"
    by blast
  then show ?thesis
    using euler_totient_mult[OF assms] divisor_sum_mult[OF assms] by simp
qed

theorem phi_sigma_multiplicative_witness:
  "coprime (4::int) 7 \<and> (1::int) \<le> 4 \<and> (1::int) \<le> 7
   \<and> (\<exists>A B C. TPEPAnalyzer 4 = Some (Inr A) \<and> TPEPAnalyzer 7 = Some (Inr B)
           \<and> TPEPAnalyzer (4 * 7) = Some (Inr C)
           \<and> phi_val C = phi_val A * phi_val B
           \<and> sigma_val C = sigma_val A * sigma_val B)"
proof -
  have c: "coprime (4::int) 7"
    by (simp add: coprime_iff_gcd_eq_1 gcd_non_0_int)
  from phi_sigma_multiplicative [OF c] c show ?thesis
    by simp
qed

text \<open>
  C9. In the totient computation, for every \<open>n \<ge> 1\<close>, the division of the step
  \<open>result = result * (p - 1) // p\<close> is exact at every iteration: whatever prefix \<open>ps\<close>
  of the keys has been processed, the loop has reached a \<open>result\<close> that the next key
  \<open>p\<close> divides, so \<open>p\<close> divides \<open>result * (p - 1)\<close> and nothing is truncated; and the
  final value is the rational product of \<open>n\<close> and \<open>(p - 1) / p\<close> over the keys, which are
  the distinct primes that divide \<open>n\<close>.
\<close>

theorem calculate_phi_division_exact:
  assumes "1 \<le> n"
  shows "\<exists>fs phi. get_prime_factors n = Some (Inr fs) \<and> calculate_phi n fs = Inr phi
           \<and> (\<forall>ps p qs. map fst fs = ps @ p # qs \<longrightarrow>
                 (\<exists>result. phi_loop n ps = Inr result \<and> p \<noteq> 0 \<and> p dvd result
                    \<and> p dvd result * (p - 1)
                    \<and> p * (result * (p - 1) div p) = result * (p - 1)))
           \<and> (of_int phi :: rat) = of_int n * (\<Prod>p\<leftarrow>map fst fs. (of_int p - 1) / of_int p)
           \<and> distinct (map fst fs) \<and> set (map fst fs) = {p. is_prime p \<and> p dvd n}"
proof -
  from get_prime_factors_result[OF assms]
  obtain fs where fs: "get_prime_factors n = Some (Inr fs)" and fact: "is_factorization n fs"
    by blast
  from fact have all: "\<forall>(p, a) \<in> set fs. 2 \<le> p \<and> 1 \<le> a"
    by (auto simp: is_factorization_def dest: is_prime_ge_2)
  from fact have phi: "calculate_phi n fs = Inr (phi_product fs)"
    by (simp add: calculate_phi_def phi_loop_factorization euler_totient_factorization)
  have exact: "\<exists>result. phi_loop n ps = Inr result \<and> p \<noteq> 0 \<and> p dvd result
      \<and> p dvd result * (p - 1) \<and> p * (result * (p - 1) div p) = result * (p - 1)"
    if split: "map fst fs = ps @ p # qs" for ps p qs
  proof -
    from phi_loop_divisible[OF fact split]
    obtain result where r: "phi_loop n ps = Inr result" "p dvd result"
      by blast
    from split have "p \<in> fst ` set fs"
      by (metis in_set_conv_decomp list.set_map)
    with all have "p \<noteq> 0" by auto
    moreover from r(2) have "p dvd result * (p - 1)" by simp
    ultimately show ?thesis
      using r by auto
  qed
  from fact have "factors_product fs = n"
    by (simp add: is_factorization_def)
  with phi_product_rational[OF all]
  have "(of_int (phi_product fs) :: rat) =
      of_int n * (\<Prod>p\<leftarrow>map fst fs. (of_int p - 1) / of_int p)"
    by simp
  moreover from fact have "distinct (map fst fs)"
    by (simp add: is_factorization_def)
  moreover from prime_divisors_are_keys[OF fact]
  have "set (map fst fs) = {p. is_prime p \<and> p dvd n}"
    by simp
  ultimately show ?thesis
    using fs phi exact by blast
qed

theorem calculate_phi_division_exact_witness:
  "(1::int) \<le> 28 \<and> get_prime_factors 28 = Some (Inr [(2, 2), (7, 1)])
   \<and> calculate_phi 28 [(2, 2), (7, 1)] = Inr 12
   \<and> (\<exists>result. phi_loop 28 [2] = Inr result \<and> 7 dvd result
          \<and> 7 * (result * (7 - 1) div 7) = result * (7 - 1))
   \<and> (12 :: rat) = 28 * (((2 - 1) / 2) * ((7 - 1) / 7))"
proof -
  have n: "(1::int) \<le> 28" by simp
  have fs: "get_prime_factors 28 = Some (Inr [(2, 2), (7, 1)])"
    by code_simp
  from calculate_phi_division_exact [OF n] fs
  have phi: "\<exists>phi. calculate_phi 28 [(2, 2), (7, 1)] = Inr phi
      \<and> (of_int phi :: rat) = of_int 28 * (\<Prod>p\<leftarrow>[2, 7]. (of_int p - 1) / of_int p)"
    and exact: "\<forall>ps p qs. [2, 7] = ps @ p # qs \<longrightarrow>
      (\<exists>result. phi_loop 28 ps = Inr result \<and> p \<noteq> 0 \<and> p dvd result
         \<and> p dvd result * (p - 1) \<and> p * (result * (p - 1) div p) = result * (p - 1))"
    by auto
  have split: "[2, 7] = [2] @ 7 # ([] :: int list)" by simp
  from exact[rule_format, OF split]
  have "\<exists>result. phi_loop 28 [2] = Inr result \<and> 7 dvd result
      \<and> 7 * (result * (7 - 1) div 7) = result * (7 - 1)"
    by blast
  moreover have "calculate_phi 28 [(2, 2), (7, 1)] = Inr 12"
    by code_simp
  ultimately show ?thesis
    using n fs by simp
qed

text \<open>
  C10. The factorization routine terminates for every input \<open>n \<ge> 1\<close>, and so does
  construction as a whole. From any state with \<open>d \<ge> 2\<close> and \<open>temp \<ge> 1\<close> the inner loop
  returns, with a \<open>temp\<close> that has not grown and is strictly smaller when \<open>d\<close> divided
  it, and the outer loop returns, with a \<open>temp\<close> that has not grown.
\<close>

theorem get_prime_factors_terminates:
  assumes "1 \<le> n"
  shows "(\<exists>fs. get_prime_factors n = Some (Inr fs))
         \<and> (\<exists>a. TPEPAnalyzer n = Some (Inr a))
         \<and> (\<forall>fs d temp. 2 \<le> d \<and> 1 \<le> temp \<longrightarrow>
               (\<exists>fs' temp'. inner_loop fs d temp = Some (Inr (fs', temp'))
                  \<and> temp' \<le> temp \<and> (d dvd temp \<longrightarrow> temp' < temp)))
         \<and> (\<forall>fs d temp. 2 \<le> d \<and> 1 \<le> temp \<longrightarrow>
               (\<exists>fs' temp'. outer_loop fs d temp = Some (Inr (fs', temp')) \<and> temp' \<le> temp))"
proof -
  from TPEPAnalyzer_result[OF assms]
  have "\<exists>fs. get_prime_factors n = Some (Inr fs)" and "\<exists>a. TPEPAnalyzer n = Some (Inr a)"
    by blast+
  moreover have "\<exists>fs' temp'. inner_loop fs d temp = Some (Inr (fs', temp'))
      \<and> temp' \<le> temp \<and> (d dvd temp \<longrightarrow> temp' < temp)"
    if "2 \<le> d \<and> 1 \<le> temp" for fs d temp
    using inner_loop_terminates[of d temp fs] that by blast
  moreover have "\<exists>fs' temp'. outer_loop fs d temp = Some (Inr (fs', temp')) \<and> temp' \<le> temp"
    if "2 \<le> d \<and> 1 \<le> temp" for fs d temp
    using outer_loop_terminates[of d temp fs] that by blast
  ultimately show ?thesis
    by blast
qed

theorem get_prime_factors_terminates_witness:
  "(1::int) \<le> 28 \<and> (\<exists>fs. get_prime_factors 28 = Some (Inr fs))
   \<and> (\<exists>a. TPEPAnalyzer 28 = Some (Inr a))
   \<and> (\<exists>fs' temp'. inner_loop [] 2 28 = Some (Inr (fs', temp')) \<and> temp' \<le> 28 \<and> temp' < 28)
   \<and> (\<exists>fs' temp'. outer_loop [] 2 28 = Some (Inr (fs', temp')) \<and> temp' \<le> 28)"
proof -
  have n: "(1::int) \<le> 28" by simp
  from get_prime_factors_terminates [OF n]
  have "(\<exists>fs. get_prime_factors 28 = Some (Inr fs))"
    and "(\<exists>a. TPEPAnalyzer 28 = Some (Inr a))"
    and inner: "\<And>fs d temp. 2 \<le> d \<and> 1 \<le> temp \<Longrightarrow>
               (\<exists>fs' temp'. inner_loop fs d temp = Some (Inr (fs', temp'))
                  \<and> temp' \<le> temp \<and> (d dvd temp \<longrightarrow> temp' < temp))"
    and outer: "\<And>fs d temp. 2 \<le> d \<and> 1 \<le> temp \<Longrightarrow>
               (\<exists>fs' temp'. outer_loop fs d temp = Some (Inr (fs', temp')) \<and> temp' \<le> temp)"
    by blast+
  moreover from inner[of 2 28 "[]"]
  have "\<exists>fs' temp'. inner_loop [] 2 28 = Some (Inr (fs', temp')) \<and> temp' \<le> 28 \<and> temp' < 28"
    by simp
  moreover from outer[of 2 28 "[]"]
  have "\<exists>fs' temp'. outer_loop [] 2 28 = Some (Inr (fs', temp')) \<and> temp' \<le> 28"
    by simp
  ultimately show ?thesis
    using n by blast
qed

text \<open>
  C4, as the code has it. For the input \<open>n = 8128\<close> the analyzer produces \<open>phi = 4032\<close>,
  \<open>sigma = 16256\<close> and a \<open>perfection_ratio\<close> of exactly \<open>2.0\<close>. Its \<open>tpep_ratio\<close> is the
  float nearest to \<open>16256 / 4032\<close>, which is \<open>567417810194497 / 2 ^ 47\<close>, about
  \<open>4.0317\<close>; \<open>math.isclose\<close> does not find it within \<open>1e-9\<close> of \<open>4.0\<close>, and the report
  labels the number \<open>IMPERFECT (Unstable)\<close>.
\<close>

theorem analyzer_8128:
  "\<exists>a. TPEPAnalyzer 8128 = Some (Inr a)
     \<and> phi_val a = 4032 \<and> sigma_val a = 16256
     \<and> perfection_ratio a = Inr 2
     \<and> tpep_ratio a = Inr (567417810194497 / 2 ^ 47)
     \<and> is_tpep_stable a = Inr False
     \<and> report a = Inr (''EVEN'', ''IMPERFECT (Unstable)'')"
proof -
  let ?a = "\<lparr>self_n = 8128, self_factors = [(2, 6), (127, 1)],
             phi_val = 4032, sigma_val = 16256\<rparr>"
  have "TPEPAnalyzer 8128 = Some (Inr ?a)"
    by code_simp
  moreover have "perfection_ratio ?a = Inr 2"
    by code_simp
  moreover have "tpep_ratio ?a = Inr (567417810194497 / 2 ^ 47)"
    by code_simp
  moreover have "is_tpep_stable ?a = Inr False"
    by code_simp
  moreover have "report ?a = Inr (''EVEN'', ''IMPERFECT (Unstable)'')"
    by code_simp
  ultimately show ?thesis
    by simp
qed

text \<open>
  The claim as the specification states it, with a \<open>tpep_ratio\<close> of \<open>4.0\<close> and the label
  \<open>PERFECT (Stable)\<close>, fails at its own input: the instance constructed for \<open>8128\<close> has
  a \<open>tpep_ratio\<close> other than \<open>4.0\<close>, the closeness test answers \<open>False\<close> and the report
  does not carry the stable label.
\<close>

theorem analyzer_8128_not_stable:
  "TPEPAnalyzer 8128 =
     Some (Inr \<lparr>self_n = 8128, self_factors = [(2, 6), (127, 1)],
                phi_val = 4032, sigma_val = 16256\<rparr>)
   \<and> tpep_ratio \<lparr>self_n = 8128, self_factors = [(2, 6), (127, 1)],
                  phi_val = 4032, sigma_val = 16256\<rparr> \<noteq> Inr 4
   \<and> is_tpep_stable \<lparr>self_n = 8128, self_factors = [(2, 6), (127, 1)],
                      phi_val = 4032, sigma_val = 16256\<rparr> = Inr False
   \<and> report \<lparr>self_n = 8128, self_factors = [(2, 6), (127, 1)],
              phi_val = 4032, sigma_val = 16256\<rparr> \<noteq> Inr (''EVEN'', ''PERFECT (Stable)'')"
  by code_simp

text \<open>
  C6. \<open>tpep_ratio\<close> fails with \<open>ZeroDivisionError\<close> exactly when \<open>phi\<close> is 0. After a
  successful construction \<open>phi\<close> is at least 1, so that failure cannot happen, and each
  of the four metrics returns a value on every instance that construction returns.
\<close>

theorem metrics_total_after_construction:
  "(tpep_ratio x = Inl ZeroDivisionError \<longleftrightarrow> phi_val x = 0)
   \<and> (TPEPAnalyzer n = Some (Inr a) \<longrightarrow>
        1 \<le> phi_val a
        \<and> (\<exists>t. totient_density a = Inr t) \<and> (\<exists>r. perfection_ratio a = Inr r)
        \<and> (\<exists>q. tpep_ratio a = Inr q) \<and> (\<exists>m. mirror_gap a = Inr m))"
proof (intro conjI impI)
  show "tpep_ratio x = Inl ZeroDivisionError \<longleftrightarrow> phi_val x = 0"
    by (simp add: tpep_ratio_def int_truediv_def)
next
  assume a: "TPEPAnalyzer n = Some (Inr a)"
  then have n: "1 \<le> n"
    by (cases "n < 1") (simp_all add: TPEPAnalyzer_invalid)
  from TPEPAnalyzer_result[OF n] a
  have "self_n a = n" and "phi_val a = euler_totient n"
    by auto
  with n euler_totient_bounds(1)[OF n] show "1 \<le> phi_val a"
    and "\<exists>t. totient_density a = Inr t" and "\<exists>r. perfection_ratio a = Inr r"
    and "\<exists>q. tpep_ratio a = Inr q" and "\<exists>m. mirror_gap a = Inr m"
    by (simp_all add: totient_density_def perfection_ratio_def tpep_ratio_def mirror_gap_def
        int_truediv_def)
qed

theorem metrics_total_after_construction_witness:
  "tpep_ratio \<lparr>self_n = 6, self_factors = [(2, 1), (3, 1)], phi_val = 0, sigma_val = 12\<rparr>
     = Inl ZeroDivisionError
   \<and> TPEPAnalyzer 28 =
       Some (Inr \<lparr>self_n = 28, self_factors = [(2, 2), (7, 1)], phi_val = 12, sigma_val = 56\<rparr>)
   \<and> (\<exists>t. totient_density
         \<lparr>self_n = 28, self_factors = [(2, 2), (7, 1)], phi_val = 12, sigma_val = 56\<rparr> = Inr t)
   \<and> (\<exists>r. perfection_ratio
         \<lparr>self_n = 28, self_factors = [(2, 2), (7, 1)], phi_val = 12, sigma_val = 56\<rparr> = Inr r)
   \<and> (\<exists>q. tpep_ratio
         \<lparr>self_n = 28, self_factors = [(2, 2), (7, 1)], phi_val = 12, sigma_val = 56\<rparr> = Inr q)
   \<and> (\<exists>m. mirror_gap
         \<lparr>self_n = 28, self_factors = [(2, 2), (7, 1)], phi_val = 12, sigma_val = 56\<rparr> = Inr m)"
proof -
  let ?x = "\<lparr>self_n = 6, self_factors = [(2, 1), (3, 1)], phi_val = 0, sigma_val = 12\<rparr>"
  let ?a = "\<lparr>self_n = 28, self_factors = [(2, 2), (7, 1)], phi_val = 12, sigma_val = 56\<rparr>"
  have a: "TPEPAnalyzer 28 = Some (Inr ?a)"
    by code_simp
  from metrics_total_after_construction [of ?x 28 ?a] a show ?thesis
    by simp
qed

text \<open>
  C8, at \<open>n = 2 ^ 54\<close>. The sum of divisors is \<open>2 ^ 55 - 1\<close>, one less than \<open>2 * n\<close>, so
  \<open>n\<close> is not perfect; the quotient \<open>2 - 2 ^ -54\<close> has no 53-bit significand and rounds
  to \<open>2.0\<close>, so \<open>perfection_ratio\<close> is exactly \<open>2.0\<close>.
\<close>

theorem perfection_ratio_rounds_to_2:
  "TPEPAnalyzer 18014398509481984 =
     Some (Inr \<lparr>self_n = 18014398509481984, self_factors = [(2, 54)],
                phi_val = 9007199254740992, sigma_val = 36028797018963967\<rparr>)
   \<and> perfection_ratio \<lparr>self_n = 18014398509481984, self_factors = [(2, 54)],
                phi_val = 9007199254740992, sigma_val = 36028797018963967\<rparr> = Inr 2
   \<and> sigma_val \<lparr>self_n = 18014398509481984, self_factors = [(2, 54)],
                phi_val = 9007199254740992, sigma_val = 36028797018963967\<rparr>
       \<noteq> 2 * self_n \<lparr>self_n = 18014398509481984, self_factors = [(2, 54)],
                phi_val = 9007199254740992, sigma_val = 36028797018963967\<rparr>
   \<and> (18014398509481984 :: int) = 2 ^ 54"
  by code_simp

end
